theory Spec2Isabelle
  imports Main "HOL-Library.Multiset"
begin

section \<open>Python values used by the Hanoi demo\<close>

text \<open>
  Every exception the modelled functions can raise is a value of \<open>py_error\<close>.
  \<open>IndexError\<close> is the interpreter's own error for a list index out of range; the
  next three are the \<^verbatim>\<open>ValueError\<close>s raised by \<^verbatim>\<open>HanoiState.move\<close> (they carry the
  numbers the message is formatted from); \<open>MoveNotFound\<close> and \<open>NextStateNotFound\<close> are
  the \<^verbatim>\<open>ValueError\<close>s of \<^verbatim>\<open>parse_hanoi_response\<close>, \<open>JSONDecodeError\<close> is what
  \<^verbatim>\<open>json.loads\<close> raises, and \<open>IntDigitsLimit\<close> is the \<^verbatim>\<open>ValueError\<close> of \<^verbatim>\<open>int\<close> for a string
  with more digits than the interpreter converts.
\<close>

datatype py_error =
    IndexError
  | DiskNotOnPeg int int
  | DiskNotOnTop int int
  | OnSmallerDisk int int
  | MoveNotFound
  | NextStateNotFound
  | JSONDecodeError
  | IntDigitsLimit

text \<open>Python's \<^verbatim>\<open>xs[i]\<close>: a negative index counts from the end, anything else out of
  range raises.\<close>

definition py_index :: "'a list \<Rightarrow> int \<Rightarrow> nat option" where
  "py_index xs i =
     (let n = int (length xs); j = (if i < 0 then n + i else i)
      in if 0 \<le> j \<and> j < n then Some (nat j) else None)"

definition py_get :: "'a list \<Rightarrow> int \<Rightarrow> py_error + 'a" where
  "py_get xs i = (case py_index xs i of None \<Rightarrow> Inl IndexError | Some j \<Rightarrow> Inr (xs ! j))"

section \<open>The Hanoi domain: \<^verbatim>\<open>class HanoiState\<close>\<close>

text \<open>A peg is the list of its disks from bottom to top: \<^verbatim>\<open>peg[-1]\<close> is the top disk,
  \<^verbatim>\<open>pop()\<close> removes it and \<^verbatim>\<open>append\<close> puts a disk on top.\<close>

record HanoiState =
  num_disks :: int
  pegs :: "int list list"

text \<open>\<^verbatim>\<open>__init__\<close>: \<^verbatim>\<open>list(range(num_disks, 0, -1))\<close> is \<open>num_disks, \<dots>, 2, 1\<close>, empty when
  \<open>num_disks \<le> 0\<close>.\<close>

definition HanoiState_init :: "int \<Rightarrow> HanoiState" where
  "HanoiState_init n = \<lparr>num_disks = n, pegs = [rev [1..n], [], []]\<rparr>"

text \<open>\<^verbatim>\<open>move\<close> mutates \<^verbatim>\<open>self\<close>; the model returns the updated state. The three checks are
  made in the order of the source, and each subscript \<^verbatim>\<open>self.pegs[...]\<close> can raise
  \<^verbatim>\<open>IndexError\<close>. Every peg of a \<^verbatim>\<open>HanoiState\<close> is a list object of its own (the
  constructor, \<^verbatim>\<open>copy\<close> and \<^verbatim>\<open>from_list\<close> all build fresh lists), so the two updates
  touch one peg each, or the same peg twice when \<^verbatim>\<open>from_peg\<close> and \<^verbatim>\<open>to_peg\<close> name the
  same peg.\<close>

definition move :: "HanoiState \<Rightarrow> int \<Rightarrow> int \<Rightarrow> int \<Rightarrow> py_error + HanoiState" where
  "move s disk from_peg to_peg =
     (case py_index (pegs s) from_peg of
        None \<Rightarrow> Inl IndexError
      | Some i \<Rightarrow>
          if disk \<notin> set (pegs s ! i) then Inl (DiskNotOnPeg disk from_peg)
          else if last (pegs s ! i) \<noteq> disk then Inl (DiskNotOnTop disk from_peg)
          else (case py_index (pegs s) to_peg of
                  None \<Rightarrow> Inl IndexError
                | Some j \<Rightarrow>
                    if pegs s ! j \<noteq> [] \<and> last (pegs s ! j) < disk
                    then Inl (OnSmallerDisk disk (last (pegs s ! j)))
                    else
                      (let popped = (pegs s)[i := butlast (pegs s ! i)];
                           pushed = popped[j := popped ! j @ [disk]]
                       in Inr (s\<lparr>pegs := pushed\<rparr>))))"

definition is_solved :: "HanoiState \<Rightarrow> py_error + bool" where
  "is_solved s =
     (case py_get (pegs s) 2 of
        Inl e \<Rightarrow> Inl e
      | Inr peg \<Rightarrow> Inr (int (length peg) = num_disks s))"

definition to_list :: "HanoiState \<Rightarrow> int list list" where
  "to_list s = map (\<lambda>peg. peg) (pegs s)"

definition from_list :: "int list list \<Rightarrow> HanoiState" where
  "from_list ps =
     (let n = int (sum_list (map length ps)) in
      (HanoiState_init n)\<lparr>pegs := map (\<lambda>peg. peg) ps\<rparr>)"

section \<open>\<^verbatim>\<open>compute_hanoi_ground_truth\<close>\<close>

text \<open>The first loop: the index of the first peg that is non-empty and has disk 1 on top
  (\<^verbatim>\<open>break\<close> at the first hit), \<open>None\<close> when there is none.\<close>

fun find_disk1_peg :: "nat \<Rightarrow> int list list \<Rightarrow> nat option" where
  "find_disk1_peg idx [] = None"
| "find_disk1_peg idx (peg # rest) =
     (if peg \<noteq> [] \<and> last peg = 1 then Some idx else find_disk1_peg (Suc idx) rest)"

text \<open>The inner loop of the fallback search, over the target pegs \<^verbatim>\<open>range(3)\<close>.
  \<^verbatim>\<open>state[to_peg_idx]\<close> raises when the state has fewer pegs. \<open>Inr None\<close> means the loop
  ran through without returning.\<close>

fun try_targets ::
  "int list list \<Rightarrow> nat \<Rightarrow> int list \<Rightarrow> nat list \<Rightarrow> py_error + int list option" where
  "try_targets state from_idx from_peg [] = Inr None"
| "try_targets state from_idx from_peg (to_idx # others) =
     (if to_idx = from_idx then try_targets state from_idx from_peg others
      else if to_idx \<ge> length state then Inl IndexError
      else
        (let to_peg = state ! to_idx; disk = last from_peg in
         if to_peg = [] \<or> last to_peg > disk
         then Inr (Some [disk, int from_idx, int to_idx])
         else try_targets state from_idx from_peg others))"

text \<open>The outer loop of the fallback search, over \<^verbatim>\<open>enumerate(state)\<close>.\<close>

fun search_legal_move ::
  "int list list \<Rightarrow> nat \<Rightarrow> int list list \<Rightarrow> py_error + int list option" where
  "search_legal_move state idx [] = Inr None"
| "search_legal_move state idx (from_peg # rest) =
     (if from_peg = [] \<or> last from_peg = 1 then search_legal_move state (Suc idx) rest
      else
        (case try_targets state idx from_peg [0, 1, 2] of
           Inl e \<Rightarrow> Inl e
         | Inr (Some mv) \<Rightarrow> Inr (Some mv)
         | Inr None \<Rightarrow> search_legal_move state (Suc idx) rest))"

text \<open>The parameter \<^verbatim>\<open>num_disks\<close> is not used by the source either. The result
  \<open>Inr None\<close> is Python's \<^verbatim>\<open>return None\<close>.\<close>

definition compute_hanoi_ground_truth ::
  "int list list \<Rightarrow> int \<Rightarrow> py_error + int list option" where
  "compute_hanoi_ground_truth state n =
     (case find_disk1_peg 0 state of
        Some disk1_peg \<Rightarrow>
          Inr (Some [1, int disk1_peg, int ((disk1_peg + 2) mod 3)])
      | None \<Rightarrow> search_legal_move state 0 state)"

section \<open>\<^verbatim>\<open>hanoi_validator\<close>\<close>

text \<open>The reason is the second component of the returned pair: the empty string on
  success, otherwise one of two formatted messages, kept here with their numbers.\<close>

datatype validator_reason =
    NoReason
  | ExpectedDisksOnPeg2 nat nat
  | ExpectedMoves int nat

text \<open>\<^verbatim>\<open>num_disks\<close> starts as \<^verbatim>\<open>sum(len(peg) for peg in [[]] * 3)\<close>, the sum of the lengths
  of three empty lists, and is then raised to the length of the longest peg.\<close>

definition validator_num_disks :: "int list list \<Rightarrow> nat" where
  "validator_num_disks final_state =
     fold (\<lambda>peg n. max n (length peg)) final_state
       (sum_list (map length (replicate 3 ([]::int list))))"

definition hanoi_validator ::
  "int list list \<Rightarrow> 'a list \<Rightarrow> py_error + (bool \<times> validator_reason)" where
  "hanoi_validator final_state actions =
     (let n = validator_num_disks final_state in
      case py_get final_state 2 of
        Inl e \<Rightarrow> Inl e
      | Inr peg2 \<Rightarrow>
          if length peg2 \<noteq> n then Inr (False, ExpectedDisksOnPeg2 n (length peg2))
          else
            (let expected_moves = (2::int) ^ n - 1 in
             if int (length actions) \<noteq> expected_moves
             then Inr (False, ExpectedMoves expected_moves (length actions))
             else Inr (True, NoReason)))"

section \<open>Sequences of moves and the state invariant\<close>

text \<open>A sequence of \<^verbatim>\<open>state.move(disk, from_peg, to_peg)\<close> calls on one state object: the
  first call that raises ends the sequence with its error.\<close>

fun apply_moves :: "HanoiState \<Rightarrow> (int \<times> int \<times> int) list \<Rightarrow> py_error + HanoiState" where
  "apply_moves s [] = Inr s"
| "apply_moves s ((disk, from_peg, to_peg) # ms) =
     (case move s disk from_peg to_peg of
        Inl e \<Rightarrow> Inl e
      | Inr s' \<Rightarrow> apply_moves s' ms)"

text \<open>The two properties the class comment promises, for a puzzle of \<open>n\<close> disks: every peg
  is strictly decreasing from bottom to top, and the pegs together hold the disks
  \<open>1, \<dots>, n\<close>, each once (equality of multisets).\<close>

definition hanoi_invariant :: "int \<Rightarrow> HanoiState \<Rightarrow> bool" where
  "hanoi_invariant n s \<longleftrightarrow>
     num_disks s = n \<and> length (pegs s) = 3 \<and>
     (\<forall>peg \<in> set (pegs s). sorted_wrt (>) peg) \<and>
     mset (concat (pegs s)) = mset [1..n]"

text \<open>The test of the first loop of \<^verbatim>\<open>compute_hanoi_ground_truth\<close>:
  \<^verbatim>\<open>peg and peg[-1] == 1\<close>.\<close>

definition disk1_on_top :: "int list \<Rightarrow> bool" where
  "disk1_on_top peg \<longleftrightarrow> peg \<noteq> [] \<and> last peg = 1"

text \<open>The domain rules a move can break, for the pegs with (normalised) indices \<open>i\<close> and
  \<open>j\<close>: the disk is not on the source peg, it is not the top disk there, or the top disk
  of the target peg is smaller.\<close>

definition violates_rules :: "HanoiState \<Rightarrow> int \<Rightarrow> nat \<Rightarrow> nat \<Rightarrow> bool" where
  "violates_rules s d i j \<longleftrightarrow>
     d \<notin> set (pegs s ! i) \<or> last (pegs s ! i) \<noteq> d \<or>
     (pegs s ! j \<noteq> [] \<and> last (pegs s ! j) < d)"

section \<open>\<^verbatim>\<open>parse_hanoi_response\<close>\<close>

text \<open>Texts are strings of 8-bit characters (code points up to 255). On these, the
  class \<^verbatim>\<open>\s\<close> of Python's \<^verbatim>\<open>re\<close> for \<^verbatim>\<open>str\<close> patterns holds the code points 9 to 13, 28
  to 32, 133 and 160, the class \<^verbatim>\<open>\d\<close> holds the ten ASCII digits, and under
  \<^verbatim>\<open>re.IGNORECASE\<close> a lower-case letter of a pattern matches itself and its ASCII capital,
  any other character of a pattern only itself.\<close>

definition is_space :: "char \<Rightarrow> bool" where
  "is_space c \<longleftrightarrow> (of_char c :: nat) \<in> set [9, 10, 11, 12, 13, 28, 29, 30, 31, 32, 133, 160]"

definition is_digit :: "char \<Rightarrow> bool" where
  "is_digit c \<longleftrightarrow> 48 \<le> (of_char c :: nat) \<and> (of_char c :: nat) \<le> 57"

definition matches_ci :: "char \<Rightarrow> char \<Rightarrow> bool" where
  "matches_ci p c \<longleftrightarrow>
     c = p \<or> (p, c) \<in> set (zip ''abcdefghijklmnopqrstuvwxyz'' ''ABCDEFGHIJKLMNOPQRSTUVWXYZ'')"
















section \<open>The voting engine\<close>

text \<open>
  The demo imports \<^verbatim>\<open>RedFlagger\<close>, \<^verbatim>\<open>SynqedStepRunner\<close>, \<^verbatim>\<open>Voter\<close> and \<^verbatim>\<open>MdapExecutor\<close>
  from the package \<^verbatim>\<open>synqed.mdap\<close>, whose code is not among the sources; only the calls
  that configure them are. The definitions of this section follow the specification's
  description of these components.
\<close>

subsection \<open>Red-Flagger\<close>

text \<open>Modelled from the spec: the configuration of the Red-Flagger (the class
  \<^verbatim>\<open>RedFlagger\<close> is missing from the sources), with the three fields the demo passes to
  its constructor.\<close>

record RedFlagger =
  max_output_tokens :: nat
  required_fields :: "string list"
  strict_format :: bool

datatype red_flag_reason =
    TokenCeilingExceeded
  | MissingField string
  | NotSingleOccurrence string

datatype RedFlagVerdict = Pass | Fail red_flag_reason

fun starts_with :: "string \<Rightarrow> string \<Rightarrow> bool" where
  "starts_with text [] = True"
| "starts_with [] (m # marker) = False"
| "starts_with (c # text) (m # marker) = (c = m \<and> starts_with text marker)"

text \<open>Modelled from the spec: how often a marker is present in a text (the number of
  positions of the text at which the marker starts). The Red-Flagger's own test is
  missing from the sources; the spec asks that a required marker or field "be present in
  the text", and for strict mode that it be there "in single occurrence".\<close>

fun occurrences :: "string \<Rightarrow> string \<Rightarrow> nat" where
  "occurrences marker [] = (if marker = [] then 1 else 0)"
| "occurrences marker (c # text) =
     (if starts_with (c # text) marker then 1 else 0) + occurrences marker text"

text \<open>Modelled from the spec: the Red-Flagger's verdict on one raw output and its token
  count (the method is missing from the sources). The checks are those of section 4.1 of
  the spec, in its order: the token ceiling, the presence of every required field, and in
  strict mode a single occurrence of each.\<close>

definition red_flag :: "RedFlagger \<Rightarrow> string \<Rightarrow> nat \<Rightarrow> RedFlagVerdict" where
  "red_flag rf raw_text output_tokens =
     (if output_tokens > max_output_tokens rf then Fail TokenCeilingExceeded
      else case find (\<lambda>field. occurrences field raw_text = 0) (required_fields rf) of
        Some field \<Rightarrow> Fail (MissingField field)
      | None \<Rightarrow>
          if strict_format rf
          then (case find (\<lambda>field. occurrences field raw_text \<noteq> 1) (required_fields rf) of
                  Some field \<Rightarrow> Fail (NotSingleOccurrence field)
                | None \<Rightarrow> Pass)
          else Pass)"



subsection \<open>Step Runner\<close>

text \<open>Modelled from the spec: the \<^verbatim>\<open>StepInput\<close> of section 3 (the class is imported from
  \<^verbatim>\<open>synqed.mdap\<close>); \<open>step_state\<close> is its field \<^verbatim>\<open>state\<close>.\<close>

record ('st, 'm) StepInput =
  step_index :: nat
  total_steps :: nat
  step_state :: 'st
  metadata :: 'm

text \<open>Modelled from the spec: the outcome of one Step Runner invocation, a parsed
  candidate or a rejection.\<close>

datatype rejection = RedFlagged red_flag_reason | Unparseable | BackendFailed

datatype 'c sample = Candidate 'c | Rejection rejection

text \<open>Modelled from the spec: the Step Runner (\<^verbatim>\<open>SynqedStepRunner\<close> is missing from the
  sources), section 4.2. The backend is a black box with a state of its own: given a
  prompt it answers with a raw text and token counts or fails. The runner builds the
  prompt, calls the backend once, runs the Red-Flagger, and parses an output that passed;
  a failure of the parser or of the backend is a rejection.\<close>

definition step_runner ::
  "RedFlagger \<Rightarrow> (('st, 'm) StepInput \<Rightarrow> string) \<Rightarrow> (string \<Rightarrow> 'e + 'c) \<Rightarrow>
   (string \<Rightarrow> 'b \<Rightarrow> (string \<times> nat \<times> nat) option \<times> 'b) \<Rightarrow>
   ('st, 'm) StepInput \<Rightarrow> 'b \<Rightarrow> 'c sample \<times> 'b" where
  "step_runner rf prompt_builder response_parser generate inp b =
     (case generate (prompt_builder inp) b of
        (None, b') \<Rightarrow> (Rejection BackendFailed, b')
      | (Some (raw_text, input_tokens, output_tokens), b') \<Rightarrow>
          (case red_flag rf raw_text output_tokens of
             Fail reason \<Rightarrow> (Rejection (RedFlagged reason), b')
           | Pass \<Rightarrow>
               (case response_parser raw_text of
                  Inl e \<Rightarrow> (Rejection Unparseable, b')
                | Inr cand \<Rightarrow> (Candidate cand, b'))))"

subsection \<open>Voter\<close>

text \<open>Modelled from the spec: the configuration of the Voter (the class \<^verbatim>\<open>Voter\<close> is
  missing from the sources), with the parameters the demo passes: the margin \<open>k\<close>, the
  cap on accepted samples, the cap on all samples, and the choice of first-to-k over
  first-to-ahead-by-k.\<close>

record Voter =
  voter_k :: int
  max_votes :: nat
  max_samples :: nat
  first_to_k :: bool

text \<open>Modelled from the spec: the counters of section 3.\<close>

record counters =
  total_samples :: nat
  total_valid_samples :: nat
  total_red_flagged :: nat

definition no_samples :: counters where
  "no_samples = \<lparr>total_samples = 0, total_valid_samples = 0, total_red_flagged = 0\<rparr>"

definition count_accepted :: "counters \<Rightarrow> counters" where
  "count_accepted cnt =
     cnt\<lparr>total_samples := Suc (total_samples cnt),
         total_valid_samples := Suc (total_valid_samples cnt)\<rparr>"

definition count_rejected :: "counters \<Rightarrow> counters" where
  "count_rejected cnt =
     cnt\<lparr>total_samples := Suc (total_samples cnt),
         total_red_flagged := Suc (total_red_flagged cnt)\<rparr>"

definition add_counters :: "counters \<Rightarrow> counters \<Rightarrow> counters" where
  "add_counters x y =
     \<lparr>total_samples = total_samples x + total_samples y,
      total_valid_samples = total_valid_samples x + total_valid_samples y,
      total_red_flagged = total_red_flagged x + total_red_flagged y\<rparr>"

text \<open>Modelled from the spec: the vote tally, candidates with their counts, keyed by
  equality of candidates. A vote for a candidate already in the tally increments its
  count, a new candidate enters with count 1.\<close>

fun add_vote :: "'c \<Rightarrow> ('c \<times> nat) list \<Rightarrow> ('c \<times> nat) list" where
  "add_vote c [] = [(c, 1)]"
| "add_vote c ((c', n) # tally) =
     (if c' = c then (c', Suc n) # tally else (c', n) # add_vote c tally)"

fun votes_for :: "('c \<times> nat) list \<Rightarrow> 'c \<Rightarrow> nat" where
  "votes_for [] c = 0"
| "votes_for ((c', n) # tally) c = (if c' = c then n else votes_for tally c)"

text \<open>Modelled from the spec: the leading candidate, one with the highest count (the
  earliest such entry), and the second-place count, the highest count of any other
  candidate, 0 when there is none.\<close>

fun leader :: "('c \<times> nat) list \<Rightarrow> ('c \<times> nat) option" where
  "leader [] = None"
| "leader ((c, n) # tally) =
     (case leader tally of
        None \<Rightarrow> Some (c, n)
      | Some (c', n') \<Rightarrow> if n < n' then Some (c', n') else Some (c, n))"

fun second_place :: "'c \<Rightarrow> ('c \<times> nat) list \<Rightarrow> nat" where
  "second_place c [] = 0"
| "second_place c ((c', n) # tally) =
     (if c' = c then second_place c tally else max n (second_place c tally))"

text \<open>Modelled from the spec: the stopping rule of section 4.3, checked after each
  accepted sample; it yields the winner when the rule is met.\<close>

definition stopping_rule_met :: "Voter \<Rightarrow> ('c \<times> nat) list \<Rightarrow> 'c option" where
  "stopping_rule_met v tally =
     (case leader tally of
        None \<Rightarrow> None
      | Some (c, n) \<Rightarrow>
          if first_to_k v
          then (if voter_k v \<le> int n then Some c else None)
          else (if voter_k v \<le> int n - int (second_place c tally) then Some c else None))"

datatype 'c vote_result =
    Winner 'c "('c \<times> nat) list"
  | StepFailure "('c \<times> nat) list"
  | ConfigurationError

text \<open>Modelled from the spec: the sampling loop of the Voter. It stops without a winner
  when the cap on accepted samples or the cap on all samples is reached; otherwise it
  draws one sample, counts it, and after an accepted sample checks the stopping rule.\<close>

function voter_loop ::
  "Voter \<Rightarrow> ('b \<Rightarrow> 'c sample \<times> 'b) \<Rightarrow> ('c \<times> nat) list \<Rightarrow> counters \<Rightarrow> 'b \<Rightarrow>
   'c vote_result \<times> counters \<times> 'b" where
  "voter_loop v draw tally cnt b =
     (if max_votes v \<le> total_valid_samples cnt \<or> max_samples v \<le> total_samples cnt
      then (StepFailure tally, cnt, b)
      else
        (case draw b of
           (Rejection r, b') \<Rightarrow> voter_loop v draw tally (count_rejected cnt) b'
         | (Candidate c, b') \<Rightarrow>
             (case stopping_rule_met v (add_vote c tally) of
                Some w \<Rightarrow> (Winner w (add_vote c tally), count_accepted cnt, b')
              | None \<Rightarrow> voter_loop v draw (add_vote c tally) (count_accepted cnt) b')))"
  by pat_completeness auto
termination
  by (relation "measure (\<lambda>(v, draw, tally, cnt, b). max_samples v - total_samples cnt)")
     (auto simp: count_rejected_def count_accepted_def)

declare voter_loop.simps [simp del]

text \<open>Modelled from the spec: one invocation of the Voter for one step. A margin
  \<open>k \<le> 0\<close> or a cap of zero is a configuration error, reported before any sample is
  drawn.\<close>

definition voter ::
  "Voter \<Rightarrow> (('st, 'm) StepInput \<Rightarrow> 'b \<Rightarrow> 'c sample \<times> 'b) \<Rightarrow> ('st, 'm) StepInput \<Rightarrow> 'b \<Rightarrow>
   'c vote_result \<times> counters \<times> 'b" where
  "voter v runner inp b =
     (if voter_k v \<le> 0 \<or> max_votes v = 0 \<or> max_samples v = 0
      then (ConfigurationError, no_samples, b)
      else voter_loop v (runner inp) [] no_samples b)"

text \<open>The samples of the first \<open>n\<close> draws from a backend state, and the accepted
  candidates among them; they serve to say what a tally counts.\<close>

fun drawn :: "('b \<Rightarrow> 'c sample \<times> 'b) \<Rightarrow> 'b \<Rightarrow> nat \<Rightarrow> 'c sample list" where
  "drawn draw b 0 = []"
| "drawn draw b (Suc n) = fst (draw b) # drawn draw (snd (draw b)) n"

fun accepted :: "'c sample list \<Rightarrow> 'c list" where
  "accepted [] = []"
| "accepted (Candidate c # samples) = c # accepted samples"
| "accepted (Rejection r # samples) = accepted samples"

subsection \<open>Executor\<close>

datatype exec_status = Pending | Running | Succeeded | Failed

text \<open>Modelled from the spec: the Executor's state between two steps (\<^verbatim>\<open>MdapExecutor\<close> is
  missing from the sources): the current domain state, the previous action carried as
  metadata, the actions accepted so far, the running counters, the backend's state and
  the index of the next step.\<close>

record ('st, 'a, 'b) executor_state =
  status :: exec_status
  current_state :: 'st
  prev_action :: "'a option"
  actions :: "'a list"
  counts :: counters
  backend :: 'b
  next_step :: nat

definition initial_executor_state :: "'st \<Rightarrow> 'b \<Rightarrow> ('st, 'a, 'b) executor_state" where
  "initial_executor_state initial_state b =
     \<lparr>status = Pending, current_state = initial_state, prev_action = None, actions = [],
      counts = no_samples, backend = b, next_step = 0\<rparr>"

text \<open>Modelled from the spec: one iteration of the \<open>Running\<close> loop of section 4.5. The
  Executor builds the step input, invokes the Voter and adds the samples of this
  invocation to the counters. On a winner it applies the winning action with the domain's
  transition function, appends the action and carries state and action forward; a
  transition that fails, a step failure and a configuration error end the run as
  \<open>Failed\<close>. A candidate is a pair of an action and a resulting state.\<close>

definition exec_step ::
  "(('st, 'a option) StepInput \<Rightarrow> 'b \<Rightarrow> ('a \<times> 'st) vote_result \<times> counters \<times> 'b) \<Rightarrow>
   ('st \<Rightarrow> 'a \<Rightarrow> 'e + 'st) \<Rightarrow> nat \<Rightarrow>
   ('st, 'a, 'b) executor_state \<Rightarrow> ('st, 'a, 'b) executor_state" where
  "exec_step vote transition num_steps es =
     (if status es = Running \<and> next_step es < num_steps
      then
        (case vote \<lparr>step_index = next_step es, total_steps = num_steps,
                    step_state = current_state es, metadata = prev_action es\<rparr> (backend es) of
           (result, cnt, b') \<Rightarrow>
             (let counted = es\<lparr>counts := add_counters (counts es) cnt, backend := b'\<rparr> in
              case result of
                Winner cand tally \<Rightarrow>
                  (case transition (current_state es) (fst cand) of
                     Inl e \<Rightarrow> counted\<lparr>status := Failed\<rparr>
                   | Inr next_state \<Rightarrow>
                       counted\<lparr>current_state := next_state,
                               prev_action := Some (fst cand),
                               actions := actions es @ [fst cand],
                               next_step := Suc (next_step es)\<rparr>)
              | StepFailure tally \<Rightarrow> counted\<lparr>status := Failed\<rparr>
              | ConfigurationError \<Rightarrow> counted\<lparr>status := Failed\<rparr>))
      else es)"

text \<open>The Executor's state after \<open>n\<close> iterations of the loop.\<close>

primrec run_steps ::
  "(('st, 'a option) StepInput \<Rightarrow> 'b \<Rightarrow> ('a \<times> 'st) vote_result \<times> counters \<times> 'b) \<Rightarrow>
   ('st \<Rightarrow> 'a \<Rightarrow> 'e + 'st) \<Rightarrow> nat \<Rightarrow> nat \<Rightarrow>
   ('st, 'a, 'b) executor_state \<Rightarrow> ('st, 'a, 'b) executor_state" where
  "run_steps vote transition num_steps 0 es = es"
| "run_steps vote transition num_steps (Suc n) es =
     exec_step vote transition num_steps (run_steps vote transition num_steps n es)"

text \<open>Modelled from the spec: \<^verbatim>\<open>run_task\<close>. The run goes from \<open>Pending\<close> to \<open>Running\<close>,
  iterates over the steps \<open>0, \<dots>, num_steps - 1\<close>, and when no step failed runs the
  domain's terminal validator on the final state and the action sequence: the run has
  \<open>Succeeded\<close> when the validator accepts and \<open>Failed\<close> otherwise.\<close>

definition run_task ::
  "(('st, 'a option) StepInput \<Rightarrow> 'b \<Rightarrow> ('a \<times> 'st) vote_result \<times> counters \<times> 'b) \<Rightarrow>
   ('st \<Rightarrow> 'a \<Rightarrow> 'e + 'st) \<Rightarrow> ('st \<Rightarrow> 'a list \<Rightarrow> bool) \<Rightarrow> 'st \<Rightarrow> nat \<Rightarrow> 'b \<Rightarrow>
   ('st, 'a, 'b) executor_state" where
  "run_task vote transition validator initial_state num_steps b =
     (let es = run_steps vote transition num_steps num_steps
                 ((initial_executor_state initial_state b)\<lparr>status := Running\<rparr>)
      in if status es = Running
         then (if validator (current_state es) (actions es)
               then es\<lparr>status := Succeeded\<rparr> else es\<lparr>status := Failed\<rparr>)
         else es)"

definition success :: "('st, 'a, 'b) executor_state \<Rightarrow> bool" where
  "success es \<longleftrightarrow> status es = Succeeded"

text \<open>The equation between the counters that the spec states as an invariant.\<close>

definition balanced :: "counters \<Rightarrow> bool" where
  "balanced cnt \<longleftrightarrow> total_valid_samples cnt + total_red_flagged cnt = total_samples cnt"

text \<open>The Voter with the demo's default arguments.\<close>

definition default_voter :: Voter where
  "default_voter = \<lparr>voter_k = 3, max_votes = 20, max_samples = 100, first_to_k = False\<rparr>"

text \<open>A Step Runner that replays a fixed list of samples; its backend state is the
  number of samples drawn so far.\<close>

definition replay_runner :: "'c sample list \<Rightarrow> 'i \<Rightarrow> nat \<Rightarrow> 'c sample \<times> nat" where
  "replay_runner samples inp n =
     (if n < length samples then samples ! n else Rejection BackendFailed, Suc n)"

subsection \<open>The Hanoi task run by the Executor\<close>

text \<open>Modelled from the spec: the transition function of the Hanoi domain, section 6. The
  demo passes no transition function to \<^verbatim>\<open>MdapExecutor\<close>; the domain's operation that
  applies a move is \<^verbatim>\<open>HanoiState.move\<close>, here applied to the list form of the state as
  \<^verbatim>\<open>HanoiState.from_list(state)\<close>, \<^verbatim>\<open>move(*action)\<close>, \<^verbatim>\<open>to_list()\<close>. An action that is not a
  list of three numbers cannot be applied.\<close>

datatype transition_error = InvalidTransition py_error | MalformedAction

definition hanoi_transition :: "int list list \<Rightarrow> int list \<Rightarrow> transition_error + int list list" where
  "hanoi_transition st action =
     (case action of
        [disk, from_peg, to_peg] \<Rightarrow>
          (case move (from_list st) disk from_peg to_peg of
             Inl e \<Rightarrow> Inl (InvalidTransition e)
           | Inr s \<Rightarrow> Inr (to_list s))
      | _ \<Rightarrow> Inl MalformedAction)"

text \<open>The verdict of \<^verbatim>\<open>hanoi_validator\<close> as the Executor reads it: the first component of
  the returned pair; a validator that raises does not accept.\<close>

definition hanoi_validator_ok :: "int list list \<Rightarrow> int list list \<Rightarrow> bool" where
  "hanoi_validator_ok final_state action_sequence =
     (case hanoi_validator final_state action_sequence of
        Inl e \<Rightarrow> False
      | Inr (ok, reason) \<Rightarrow> ok)"

text \<open>The strategy that \<^verbatim>\<open>generate_hanoi_strategy\<close> gives to the model, as a function of
  what the prompt tells it, the current state and the previous move: the smallest disk
  moves clockwise, \<open>0 \<rightarrow> 2 \<rightarrow> 1 \<rightarrow> 0\<close>, and between two moves of the smallest disk the legal
  move not involving disk 1 is made. The two kinds of move are the two parts of
  \<^verbatim>\<open>compute_hanoi_ground_truth\<close>: its first part moves disk 1 clockwise, its search finds
  the legal move not involving disk 1.\<close>

definition strategy_move :: "int list list \<Rightarrow> int list option \<Rightarrow> py_error + int list option" where
  "strategy_move st prev_move =
     (if (case prev_move of Some (disk # rest) \<Rightarrow> disk = 1 | _ \<Rightarrow> False)
      then search_legal_move st 0 st
      else compute_hanoi_ground_truth st (int (length (concat st))))"

text \<open>The move \<^verbatim>\<open>compute_hanoi_ground_truth\<close> returns for a step input, as
  \<^verbatim>\<open>ground_truth_fn\<close> of \<^verbatim>\<open>run_calibration\<close> calls it.\<close>

definition ground_truth_move :: "int list list \<Rightarrow> int list option \<Rightarrow> py_error + int list option" where
  "ground_truth_move st prev_move = compute_hanoi_ground_truth st (int (length (concat st)))"

text \<open>The action of the winning candidate of a Voter invocation, if it has a winner.\<close>

fun winning_action :: "('a \<times> 'st) vote_result \<times> counters \<times> 'b \<Rightarrow> 'a option" where
  "winning_action (Winner cand tally, cnt, b) = Some (fst cand)"
| "winning_action (StepFailure tally, cnt, b) = None"
| "winning_action (ConfigurationError, cnt, b) = None"

text \<open>The trajectory of a run of \<open>n\<close> steps in which the action applied at every step is
  the one a policy names for the current state and the previous action: the state, the
  previous action and the action sequence after the \<open>n\<close> steps, or \<open>None\<close> when the policy
  names no action or the action cannot be applied.\<close>

primrec follow ::
  "('st \<Rightarrow> 'a option \<Rightarrow> 'x + 'a option) \<Rightarrow> ('st \<Rightarrow> 'a \<Rightarrow> 'e + 'st) \<Rightarrow> nat \<Rightarrow> 'st \<Rightarrow>
   ('st \<times> 'a option \<times> 'a list) option" where
  "follow policy transition 0 st0 = Some (st0, None, [])"
| "follow policy transition (Suc n) st0 =
     (case follow policy transition n st0 of
        None \<Rightarrow> None
      | Some (st, prev, acts) \<Rightarrow>
          (case policy st prev of
             Inr (Some a) \<Rightarrow>
               (case transition st a of
                  Inl e \<Rightarrow> None
                | Inr st' \<Rightarrow> Some (st', Some a, acts @ [a]))
           | _ \<Rightarrow> None))"

text \<open>A Step Runner that always returns the move a policy names, with the state the move
  leads to (the state as it is when the move cannot be applied); its backend state counts
  the calls. And a Voter that decides after one accepted sample.\<close>

definition policy_runner ::
  "(int list list \<Rightarrow> int list option \<Rightarrow> py_error + int list option) \<Rightarrow>
   (int list list, int list option) StepInput \<Rightarrow> nat \<Rightarrow> (int list \<times> int list list) sample \<times> nat" where
  "policy_runner policy inp b =
     (case policy (step_state inp) (metadata inp) of
        Inr (Some a) \<Rightarrow>
          (Candidate (a, case hanoi_transition (step_state inp) a of
                           Inl e \<Rightarrow> step_state inp | Inr st' \<Rightarrow> st'), Suc b)
      | _ \<Rightarrow> (Rejection Unparseable, Suc b))"

definition one_vote :: Voter where
  "one_vote = \<lparr>voter_k = 1, max_votes = 20, max_samples = 100, first_to_k = False\<rparr>"

section \<open>Properties of the Hanoi domain\<close>

lemma py_index_bound: "py_index xs i = Some j \<Longrightarrow> j < length xs"
  by (auto simp: py_index_def Let_def split: if_splits)

text \<open>
  Claim C10. For every list \<open>ps\<close> of three pegs, \<^verbatim>\<open>HanoiState.from_list(ps).to_list()\<close> is
  \<open>ps\<close> again, the constructed state's \<^verbatim>\<open>num_disks\<close> is the total number of disks on the
  three pegs, and \<^verbatim>\<open>is_solved\<close> returns true exactly when pegs 0 and 1 are empty.
\<close>

theorem from_list_roundtrip:
  assumes "length ps = 3"
  shows "to_list (from_list ps) = ps \<and>
         num_disks (from_list ps) = int (length (concat ps)) \<and>
         is_solved (from_list ps) = Inr (ps ! 0 = [] \<and> ps ! 1 = [])"
proof -
  from assms obtain a b c where ps: "ps = [a, b, c]"
    by (cases ps; cases "tl ps"; cases "tl (tl ps)"; auto)
  have "(int (length a) + int (length b) = 0) = (a = [] \<and> b = [])"
    by (simp flip: of_nat_add)
  then show ?thesis
    by (simp add: ps to_list_def from_list_def HanoiState_init_def is_solved_def py_get_def py_index_def Let_def)
qed

theorem from_list_roundtrip_witness:
  "length [[3, 2], [], [1::int]] = 3 \<and> to_list (from_list [[3, 2], [], [1]]) = [[3, 2], [], [1]] \<and>
   num_disks (from_list [[3, 2], [], [1]]) = 3 \<and>
   is_solved (from_list [[3, 2], [], [1]]) = Inr False"
  using from_list_roundtrip [of "[[3, 2], [], [1]]"] by simp

lemma move_ok:
  assumes "py_index (pegs s) f = Some i" "py_index (pegs s) t = Some j"
    and "d \<in> set (pegs s ! i)" "last (pegs s ! i) = d"
    and "\<not> (pegs s ! j \<noteq> [] \<and> last (pegs s ! j) < d)"
  shows "move s d f t =
     Inr (s\<lparr>pegs := ((pegs s)[i := butlast (pegs s ! i)])
                      [j := ((pegs s)[i := butlast (pegs s ! i)]) ! j @ [d]]\<rparr>)"
  using assms by (simp add: move_def Let_def)

lemma move_Inr_iff:
  assumes "py_index (pegs s) f = Some i" "py_index (pegs s) t = Some j"
  shows "(\<exists>e. move s d f t = Inl e) \<longleftrightarrow> violates_rules s d i j"
  using assms by (auto simp: move_def Let_def violates_rules_def)

lemma move_in_range:
  assumes "py_index (pegs s) from_peg = Some i" "py_index (pegs s) to_peg = Some j"
  shows "((\<exists>e. move s d from_peg to_peg = Inl e) \<longleftrightarrow> violates_rules s d i j) \<and>
         (\<not> violates_rules s d i j \<longrightarrow>
            (\<exists>s'. move s d from_peg to_peg = Inr s' \<and>
               num_disks s' = num_disks s \<and> length (pegs s') = length (pegs s) \<and>
               (i \<noteq> j \<longrightarrow> pegs s ! i = pegs s' ! i @ [d] \<and> pegs s' ! j = pegs s ! j @ [d]) \<and>
               (i = j \<longrightarrow> pegs s' ! i = pegs s ! i) \<and>
               (\<forall>q<length (pegs s). q \<noteq> i \<and> q \<noteq> j \<longrightarrow> pegs s' ! q = pegs s ! q)))"
proof (intro conjI impI)
  show "(\<exists>e. move s d from_peg to_peg = Inl e) \<longleftrightarrow> violates_rules s d i j"
    by (rule move_Inr_iff [OF assms])
next
  assume nv: "\<not> violates_rules s d i j"
  have i: "i < length (pegs s)" and j: "j < length (pegs s)"
    using assms by (auto dest: py_index_bound)
  from nv have d: "d \<in> set (pegs s ! i)" and l: "last (pegs s ! i) = d"
    and t: "\<not> (pegs s ! j \<noteq> [] \<and> last (pegs s ! j) < d)"
    by (auto simp: violates_rules_def)
  from d have ne: "pegs s ! i \<noteq> []" by auto
  have bl: "butlast (pegs s ! i) @ [d] = pegs s ! i"
    using ne l by (metis append_butlast_last_id)
  let ?s' = "s\<lparr>pegs := ((pegs s)[i := butlast (pegs s ! i)])
                      [j := ((pegs s)[i := butlast (pegs s ! i)]) ! j @ [d]]\<rparr>"
  have m: "move s d from_peg to_peg = Inr ?s'"
    by (rule move_ok [OF assms d l t])
  have "num_disks ?s' = num_disks s" by simp
  moreover have "length (pegs ?s') = length (pegs s)" by simp
  moreover have "i \<noteq> j \<longrightarrow> pegs s ! i = pegs ?s' ! i @ [d] \<and> pegs ?s' ! j = pegs s ! j @ [d]"
    using i j bl by (simp add: nth_list_update)
  moreover have "i = j \<longrightarrow> pegs ?s' ! i = pegs s ! i"
    using i bl by (auto simp: nth_list_update)
  moreover have "\<forall>q<length (pegs s). q \<noteq> i \<and> q \<noteq> j \<longrightarrow> pegs ?s' ! q = pegs s ! q"
    by (simp add: nth_list_update)
  ultimately show "\<exists>s'. move s d from_peg to_peg = Inr s' \<and>
               num_disks s' = num_disks s \<and> length (pegs s') = length (pegs s) \<and>
               (i \<noteq> j \<longrightarrow> pegs s ! i = pegs s' ! i @ [d] \<and> pegs s' ! j = pegs s ! j @ [d]) \<and>
               (i = j \<longrightarrow> pegs s' ! i = pegs s ! i) \<and>
               (\<forall>q<length (pegs s). q \<noteq> i \<and> q \<noteq> j \<longrightarrow> pegs s' ! q = pegs s ! q)"
    using m by blast
qed

lemma move_from_out_of_range:
  "py_index (pegs s) from_peg = None \<Longrightarrow> move s d from_peg to_peg = Inl IndexError"
  by (simp add: move_def)

lemma move_to_out_of_range:
  assumes "py_index (pegs s) from_peg = Some i" "py_index (pegs s) to_peg = None"
  shows "(\<exists>e. move s d from_peg to_peg = Inl e) \<and>
         (move s d from_peg to_peg = Inl IndexError \<longleftrightarrow>
            d \<in> set (pegs s ! i) \<and> last (pegs s ! i) = d)"
  using assms by (auto simp: move_def)

text \<open>
  Claim C3, as the code has it. \<^verbatim>\<open>move\<close> subscripts \<^verbatim>\<open>self.pegs\<close> with \<^verbatim>\<open>from_peg\<close> and
  \<^verbatim>\<open>to_peg\<close> as they come, so an index outside the state's pegs raises \<^verbatim>\<open>IndexError\<close>
  although no domain rule is violated: in the 3-disk start state, \<^verbatim>\<open>move(1, 0, 3)\<close> finds
  disk 1 on peg 0 and on top of it, no peg of the state has a smaller top disk, and the
  call raises at \<^verbatim>\<open>self.pegs[3]\<close>.
\<close>

theorem move_raises_without_violation:
  "move (HanoiState_init 3) 1 0 3 = Inl IndexError \<and>
   pegs (HanoiState_init 3) = [[3, 2, 1], [], []] \<and>
   1 \<in> set (pegs (HanoiState_init 3) ! 0) \<and>
   last (pegs (HanoiState_init 3) ! 0) = 1 \<and>
   \<not> violates_rules (HanoiState_init 3) 1 0 0 \<and>
   \<not> violates_rules (HanoiState_init 3) 1 0 1 \<and>
   \<not> violates_rules (HanoiState_init 3) 1 0 2"
proof -
  have p: "pegs (HanoiState_init 3) = [[3, 2, 1], [], []]"
    by (simp add: HanoiState_init_def upto.simps)
  show ?thesis
    by (simp add: p move_def py_index_def violates_rules_def)
qed

text \<open>
  Claim C3, amended. For every state and action \<^verbatim>\<open>[disk, from_peg, to_peg]\<close>:
  when \<^verbatim>\<open>from_peg\<close> indexes no peg of the state, \<^verbatim>\<open>move\<close> raises \<^verbatim>\<open>IndexError\<close>; when
  \<^verbatim>\<open>from_peg\<close> indexes a peg and \<^verbatim>\<open>to_peg\<close> does not, it raises as well, and the error is
  \<^verbatim>\<open>IndexError\<close> exactly when the disk is the top disk of the source peg (otherwise it is
  the rule violation found first); when both index pegs of the state, \<^verbatim>\<open>move\<close> raises
  exactly when the move violates a domain rule (the disk is not on the source peg, is not
  its top disk, or the target peg's top disk is smaller), and otherwise it returns the
  state in which the disk has left the top of the source peg and lies on top of the target
  peg, every other peg and \<^verbatim>\<open>num_disks\<close> unchanged (the state is unchanged when both
  indices name the same peg).
\<close>

theorem move_raises_iff_violation_or_bad_index:
  "(py_index (pegs s) from_peg = None \<longrightarrow> move s d from_peg to_peg = Inl IndexError) \<and>
   (py_index (pegs s) from_peg = Some i \<and> py_index (pegs s) to_peg = None \<longrightarrow>
      (\<exists>e. move s d from_peg to_peg = Inl e) \<and>
      (move s d from_peg to_peg = Inl IndexError \<longleftrightarrow>
         d \<in> set (pegs s ! i) \<and> last (pegs s ! i) = d)) \<and>
   (py_index (pegs s) from_peg = Some i \<and> py_index (pegs s) to_peg = Some j \<longrightarrow>
      ((\<exists>e. move s d from_peg to_peg = Inl e) \<longleftrightarrow> violates_rules s d i j) \<and>
      (\<not> violates_rules s d i j \<longrightarrow>
         (\<exists>s'. move s d from_peg to_peg = Inr s' \<and>
            num_disks s' = num_disks s \<and> length (pegs s') = length (pegs s) \<and>
            (i \<noteq> j \<longrightarrow> pegs s ! i = pegs s' ! i @ [d] \<and> pegs s' ! j = pegs s ! j @ [d]) \<and>
            (i = j \<longrightarrow> pegs s' ! i = pegs s ! i) \<and>
            (\<forall>q<length (pegs s). q \<noteq> i \<and> q \<noteq> j \<longrightarrow> pegs s' ! q = pegs s ! q))))"
proof -
  have out_from: "py_index (pegs s) from_peg = None \<longrightarrow> move s d from_peg to_peg = Inl IndexError"
    by (simp add: move_from_out_of_range)
  have out_to: "py_index (pegs s) from_peg = Some i \<and> py_index (pegs s) to_peg = None \<longrightarrow>
      (\<exists>e. move s d from_peg to_peg = Inl e) \<and>
      (move s d from_peg to_peg = Inl IndexError \<longleftrightarrow>
         d \<in> set (pegs s ! i) \<and> last (pegs s ! i) = d)"
    using move_to_out_of_range [of s from_peg i to_peg d] by simp
  have in_range: "py_index (pegs s) from_peg = Some i \<and> py_index (pegs s) to_peg = Some j \<longrightarrow>
      ((\<exists>e. move s d from_peg to_peg = Inl e) \<longleftrightarrow> violates_rules s d i j) \<and>
      (\<not> violates_rules s d i j \<longrightarrow>
         (\<exists>s'. move s d from_peg to_peg = Inr s' \<and>
            num_disks s' = num_disks s \<and> length (pegs s') = length (pegs s) \<and>
            (i \<noteq> j \<longrightarrow> pegs s ! i = pegs s' ! i @ [d] \<and> pegs s' ! j = pegs s ! j @ [d]) \<and>
            (i = j \<longrightarrow> pegs s' ! i = pegs s ! i) \<and>
            (\<forall>q<length (pegs s). q \<noteq> i \<and> q \<noteq> j \<longrightarrow> pegs s' ! q = pegs s ! q)))"
    using move_in_range [of s from_peg i to_peg j d] by simp
  show ?thesis
    by (rule conjI [OF out_from conjI [OF out_to in_range]])
qed

theorem move_raises_iff_violation_or_bad_index_witness:
  "py_index (pegs (HanoiState_init 3)) 0 = Some 0 \<and>
   py_index (pegs (HanoiState_init 3)) 2 = Some 2 \<and>
   py_index (pegs (HanoiState_init 3)) 3 = None \<and>
   \<not> violates_rules (HanoiState_init 3) 1 0 2 \<and>
   (\<exists>s'. move (HanoiState_init 3) 1 0 2 = Inr s' \<and> pegs s' ! 2 = [1]) \<and>
   violates_rules (HanoiState_init 3) 2 0 2 \<and>
   (\<exists>e. move (HanoiState_init 3) 2 0 2 = Inl e) \<and>
   move (HanoiState_init 3) 1 3 0 = Inl IndexError \<and>
   move (HanoiState_init 3) 1 0 3 = Inl IndexError \<and>
   move (HanoiState_init 3) 2 0 3 \<noteq> Inl IndexError"
proof -
  have p: "pegs (HanoiState_init 3) = [[3, 2, 1], [], []]"
    by (simp add: HanoiState_init_def upto.simps)
  have i0: "py_index (pegs (HanoiState_init 3)) 0 = Some 0"
    and i2: "py_index (pegs (HanoiState_init 3)) 2 = Some 2"
    and i3: "py_index (pegs (HanoiState_init 3)) 3 = None"
    by (simp_all add: p py_index_def)
  have v1: "\<not> violates_rules (HanoiState_init 3) 1 0 2"
    and v2: "violates_rules (HanoiState_init 3) 2 0 2"
    by (simp_all add: violates_rules_def p)
  have t1: "1 \<in> set (pegs (HanoiState_init 3) ! 0) \<and> last (pegs (HanoiState_init 3) ! 0) = 1"
    and t2: "last (pegs (HanoiState_init 3) ! 0) \<noteq> 2"
    by (simp_all add: p)
  show ?thesis
    using move_raises_iff_violation_or_bad_index [of "HanoiState_init 3" 0 1 2 0 2]
      move_raises_iff_violation_or_bad_index [of "HanoiState_init 3" 0 2 2 0 2]
      move_raises_iff_violation_or_bad_index [of "HanoiState_init 3" 3 1 0 0 0]
      move_raises_iff_violation_or_bad_index [of "HanoiState_init 3" 0 1 3 0 0]
      move_raises_iff_violation_or_bad_index [of "HanoiState_init 3" 0 2 3 0 0]
      i0 i2 i3 v1 v2 t1 t2 p by auto
qed

lemma mset_concat_update:
  "i < length xs \<Longrightarrow>
   mset (concat (xs[i := y])) + mset (xs ! i) = mset (concat xs) + mset y"
  by (induction xs arbitrary: i) (auto split: nat.splits)

lemma distinct_concat_disjoint:
  "distinct (concat xs) \<Longrightarrow> i < j \<Longrightarrow> j < length xs \<Longrightarrow> set (xs ! i) \<inter> set (xs ! j) = {}"
proof (induction xs arbitrary: i j)
  case Nil then show ?case by simp
next
  case (Cons a xs)
  show ?case
  proof (cases i)
    case 0
    with Cons.prems obtain j' where "j = Suc j'" "j' < length xs" by (cases j) auto
    then have "set (xs ! j') \<subseteq> \<Union> (set ` set xs)" using nth_mem by blast
    with Cons.prems 0 \<open>j = Suc j'\<close> show ?thesis by auto
  next
    case (Suc i')
    with Cons.prems obtain j' where "j = Suc j'" "i' < j'" "j' < length xs" by (cases j) auto
    with Cons Suc show ?thesis by auto
  qed
qed

lemma distinct_concat_disjoint_neq:
  assumes "distinct (concat xs)" "i \<noteq> j" "i < length xs" "j < length xs"
  shows "set (xs ! i) \<inter> set (xs ! j) = {}"
proof (cases "i < j")
  case True then show ?thesis using assms distinct_concat_disjoint by blast
next
  case False
  then have "j < i" using assms by simp
  then have "set (xs ! j) \<inter> set (xs ! i) = {}" using assms distinct_concat_disjoint by blast
  then show ?thesis by blast
qed

lemma sorted_wrt_gt_last: "sorted_wrt (>) (B::int list) \<Longrightarrow> x \<in> set B \<Longrightarrow> last B \<le> x"
proof (induction B)
  case Nil then show ?case by simp
next
  case (Cons a B)
  show ?case
  proof (cases "B = []")
    case True with Cons.prems show ?thesis by simp
  next
    case False
    then have lb: "last B \<in> set B" by simp
    show ?thesis
    proof (cases "x = a")
      case True
      from Cons.prems(1) lb have "last B < a" by simp
      with True \<open>B \<noteq> []\<close> show ?thesis by simp
    next
      case False
      with Cons \<open>B \<noteq> []\<close> show ?thesis by simp
    qed
  qed
qed

lemma sorted_wrt_gt_butlast: "sorted_wrt (>) (A @ [d::int]) \<Longrightarrow> sorted_wrt (>) A"
  by (simp add: sorted_wrt_append)

lemma distinct_upto_mset: "mset xs = mset [1..n::int] \<Longrightarrow> distinct xs"
  by (metis distinct_upto mset_eq_imp_distinct_iff)

lemma move_preserves_invariant:
  assumes inv: "hanoi_invariant n s" and mv: "move s d f t = Inr s'"
  shows "hanoi_invariant n s'"
proof -
  from mv obtain i j where fi: "py_index (pegs s) f = Some i" and tj: "py_index (pegs s) t = Some j"
    and d: "d \<in> set (pegs s ! i)" and l: "last (pegs s ! i) = d"
    and tp: "pegs s ! j = [] \<or> \<not> last (pegs s ! j) < d"
    and s': "s' = s\<lparr>pegs := ((pegs s)[i := butlast (pegs s ! i)])
                      [j := ((pegs s)[i := butlast (pegs s ! i)]) ! j @ [d]]\<rparr>"
    by (auto simp: move_def Let_def split: option.splits if_splits)
  have i: "i < length (pegs s)" and j: "j < length (pegs s)"
    using fi tj by (auto dest: py_index_bound)
  have bl: "butlast (pegs s ! i) @ [d] = pegs s ! i"
    using d l by (metis append_butlast_last_id empty_iff empty_set)
  have dist: "distinct (concat (pegs s))"
    using inv by (auto simp: hanoi_invariant_def intro: distinct_upto_mset)
  have sorted: "\<And>q. q < length (pegs s) \<Longrightarrow> sorted_wrt (>) (pegs s ! q)"
    using inv by (auto simp: hanoi_invariant_def)
  show ?thesis
  proof (cases "i = j")
    case True
    then have "pegs s' = pegs s" using s' i bl by (simp add: list_update_same_conv)
    then show ?thesis using inv s' by (simp add: hanoi_invariant_def)
  next
    case False
    let ?A = "butlast (pegs s ! i)" and ?B = "pegs s ! j"
    let ?p1 = "(pegs s)[i := ?A]"
    have ps': "pegs s' = ?p1[j := ?B @ [d]]" using s' False by simp
    have "mset (concat ?p1) + mset (pegs s ! i) = mset (concat (pegs s)) + mset ?A"
      using i by (rule mset_concat_update)
    moreover have "mset (concat (?p1[j := ?B @ [d]])) + mset (?p1 ! j)
        = mset (concat ?p1) + mset (?B @ [d])"
      using j by (intro mset_concat_update) simp
    moreover have "?p1 ! j = ?B" using False by simp
    moreover have "mset (pegs s ! i) = mset ?A + {#d#}" using bl by (metis mset.simps(2) mset_append mset.simps(1) add.right_neutral union_mset_add_mset_right)
    ultimately have m: "mset (concat (pegs s')) = mset (concat (pegs s))"
      using ps' by (simp add: ac_simps) 
    have dB: "d \<notin> set ?B"
      using distinct_concat_disjoint_neq [OF dist False i j] d by blast
    have sA: "sorted_wrt (>) ?A"
      using sorted [OF i] bl sorted_wrt_gt_butlast by metis
    have sB: "sorted_wrt (>) (?B @ [d])"
    proof -
      have "\<forall>x \<in> set ?B. d < x"
      proof
        fix x assume x: "x \<in> set ?B"
        then have "?B \<noteq> []" by auto
        with tp have "d \<le> last ?B" by simp
        moreover have "last ?B \<in> set ?B" using \<open>?B \<noteq> []\<close> by simp
        ultimately have "d < last ?B" using dB by (metis order_less_le)
        moreover have "last ?B \<le> x" using sorted [OF j] x by (rule sorted_wrt_gt_last)
        ultimately show "d < x" by simp
      qed
      then show ?thesis using sorted [OF j] by (auto simp: sorted_wrt_append)
    qed
    have "\<forall>peg \<in> set (pegs s'). sorted_wrt (>) peg"
    proof
      fix peg assume "peg \<in> set (pegs s')"
      then obtain q where q: "q < length (pegs s')" "peg = pegs s' ! q"
        by (auto simp: in_set_conv_nth)
      then show "sorted_wrt (>) peg"
        using ps' sA sB sorted i j by (auto simp: nth_list_update)
    qed
    then show ?thesis using inv m s' by (simp add: hanoi_invariant_def)
  qed
qed

lemma init_invariant: "hanoi_invariant n (HanoiState_init n)"
proof -
  have "sorted_wrt (>) (rev [1..n])"
    by (simp add: sorted_wrt_rev)
  then show ?thesis by (simp add: hanoi_invariant_def HanoiState_init_def)
qed

lemma apply_moves_invariant:
  "hanoi_invariant n s \<Longrightarrow> apply_moves s ms = Inr s' \<Longrightarrow> hanoi_invariant n s'"
proof (induction ms arbitrary: s)
  case Nil then show ?case by simp
next
  case (Cons m ms)
  obtain d f t where m: "m = (d, f, t)" by (cases m)
  from Cons.prems obtain s1 where "move s d f t = Inr s1" "apply_moves s1 ms = Inr s'"
    by (auto simp: m split: sum.splits)
  then show ?case using Cons.IH Cons.prems(1) move_preserves_invariant by blast
qed

lemma apply_moves_take:
  "apply_moves s ms = Inr s' \<Longrightarrow> \<exists>s''. apply_moves s (take k ms) = Inr s''"
proof (induction ms arbitrary: s k)
  case Nil then show ?case by simp
next
  case (Cons m ms)
  obtain d f t where m: "m = (d, f, t)" by (cases m)
  show ?case
  proof (cases k)
    case 0 then show ?thesis by simp
  next
    case (Suc k')
    from Cons.prems obtain s1 where "move s d f t = Inr s1" "apply_moves s1 ms = Inr s'"
      by (auto simp: m split: sum.splits)
    then show ?thesis using Cons.IH [of s1 k'] by (simp add: m Suc)
  qed
qed

text \<open>
  Claim C9. Starting from \<^verbatim>\<open>HanoiState(n)\<close> and applying any sequence of moves none of
  which raises, every intermediate state (the state after the first \<open>k\<close> moves, for every
  \<open>k\<close>) has three pegs, each strictly decreasing from bottom to top, which together
  hold exactly the disks \<open>1, \<dots>, n\<close> with none duplicated or lost.
\<close>

theorem moves_keep_hanoi_invariant:
  assumes "apply_moves (HanoiState_init n) ms = Inr s"
  shows "\<exists>s'. apply_moves (HanoiState_init n) (take k ms) = Inr s' \<and> hanoi_invariant n s'"
  using assms apply_moves_take apply_moves_invariant init_invariant by blast

theorem moves_keep_hanoi_invariant_witness:
  "apply_moves (HanoiState_init 3) [(1, 0, 2), (2, 0, 1)] =
     Inr \<lparr>num_disks = 3, pegs = [[3], [2], [1]]\<rparr> \<and>
   hanoi_invariant 3 \<lparr>num_disks = 3, pegs = [[3, 2], [], [1]]\<rparr>"
proof -
  have a: "apply_moves (HanoiState_init 3) [(1, 0, 2), (2, 0, 1)] =
     Inr \<lparr>num_disks = 3, pegs = [[3], [2], [1]]\<rparr>"
    by (simp add: HanoiState_init_def move_def py_index_def Let_def upto.simps)
  have b: "apply_moves (HanoiState_init 3) (take 1 [(1, 0, 2), (2, 0, 1)]) =
     Inr \<lparr>num_disks = 3, pegs = [[3, 2], [], [1]]\<rparr>"
    by (simp add: HanoiState_init_def move_def py_index_def Let_def upto.simps)
  show ?thesis using moves_keep_hanoi_invariant [OF a, of 1] a b by simp
qed

lemma find_disk1_peg_first:
  "p < length state \<Longrightarrow> disk1_on_top (state ! p) \<Longrightarrow> \<forall>q<p. \<not> disk1_on_top (state ! q) \<Longrightarrow>
   find_disk1_peg idx state = Some (idx + p)"
proof (induction state arbitrary: idx p)
  case Nil then show ?case by simp
next
  case (Cons peg rest)
  show ?case
  proof (cases p)
    case 0 with Cons.prems show ?thesis by (simp add: disk1_on_top_def)
  next
    case (Suc p')
    with Cons.prems have "\<not> disk1_on_top peg" by auto
    moreover have "find_disk1_peg (Suc idx) rest = Some (Suc idx + p')"
      using Cons.prems Suc by (intro Cons.IH) auto
    ultimately show ?thesis using Suc by (simp add: disk1_on_top_def)
  qed
qed

lemma find_disk1_peg_None:
  "find_disk1_peg idx state = None \<longleftrightarrow> (\<forall>peg \<in> set state. \<not> disk1_on_top peg)"
  by (induction state arbitrary: idx) (auto simp: disk1_on_top_def)

lemma distinct_concat_tops:
  assumes "distinct (concat state)" "p < length state" "q < p"
    "disk1_on_top (state ! p)"
  shows "\<not> disk1_on_top (state ! q)"
proof
  assume "disk1_on_top (state ! q)"
  with assms(4) have "1 \<in> set (state ! q)" "1 \<in> set (state ! p)"
    by (auto simp: disk1_on_top_def dest: last_in_set)
  moreover have "set (state ! q) \<inter> set (state ! p) = {}"
    using assms(1-3)
  proof (induction state arbitrary: p q)
    case Nil then show ?case by simp
  next
    case (Cons a xs)
    from Cons.prems obtain p' where p: "p = Suc p'" "p' < length xs" by (cases p) auto
    show ?case
    proof (cases q)
      case 0
      have "set (xs ! p') \<subseteq> \<Union> (set ` set xs)" using p nth_mem by blast
      with Cons.prems 0 p show ?thesis by auto
    next
      case (Suc q')
      with Cons p show ?thesis by auto
    qed
  qed
  ultimately show False by blast
qed

lemma find_disk1_peg_Some:
  "find_disk1_peg idx state = Some r \<Longrightarrow>
   \<exists>p<length state. r = idx + p \<and> disk1_on_top (state ! p)"
proof (induction state arbitrary: idx)
  case Nil then show ?case by simp
next
  case (Cons peg rest)
  show ?case
  proof (cases "peg \<noteq> [] \<and> last peg = 1")
    case True
    with Cons.prems have "r = idx + 0 \<and> disk1_on_top ((peg # rest) ! 0)"
      by (simp add: disk1_on_top_def)
    then show ?thesis by blast
  next
    case False
    with Cons.prems have "find_disk1_peg (Suc idx) rest = Some r" by auto
    from Cons.IH [OF this] obtain p where "p < length rest" "r = Suc idx + p"
      "disk1_on_top (rest ! p)" by blast
    then have "Suc p < length (peg # rest) \<and> r = idx + Suc p \<and> disk1_on_top ((peg # rest) ! Suc p)"
      by simp
    then show ?thesis by blast
  qed
qed

text \<open>
  Claim C8. In a state whose disks are pairwise different, if disk 1 is the top disk of
  peg \<open>p\<close> then \<^verbatim>\<open>compute_hanoi_ground_truth\<close> returns the move \<open>[1, p, (p + 2) mod 3]\<close>.
  The first loop finds no peg, so that the search for a move of another disk is reached,
  exactly when disk 1 is on top of no peg; in any state where disk 1 is on top of some
  peg, the result is the clockwise move of disk 1 from such a peg.
\<close>

theorem ground_truth_moves_disk1:
  "(distinct (concat state) \<and> p < length state \<and> disk1_on_top (state ! p) \<longrightarrow>
      compute_hanoi_ground_truth state n = Inr (Some [1, int p, int ((p + 2) mod 3)])) \<and>
   (find_disk1_peg 0 state = None \<longleftrightarrow> (\<forall>peg \<in> set state. \<not> disk1_on_top peg)) \<and>
   ((\<exists>peg \<in> set state. disk1_on_top peg) \<longrightarrow>
      (\<exists>q<length state. disk1_on_top (state ! q) \<and>
         compute_hanoi_ground_truth state n = Inr (Some [1, int q, int ((q + 2) mod 3)])))"
proof (intro conjI impI)
  assume a: "distinct (concat state) \<and> p < length state \<and> disk1_on_top (state ! p)"
  then have "\<forall>q<p. \<not> disk1_on_top (state ! q)" using distinct_concat_tops by blast
  with a have "find_disk1_peg 0 state = Some (0 + p)" by (intro find_disk1_peg_first) auto
  then show "compute_hanoi_ground_truth state n = Inr (Some [1, int p, int ((p + 2) mod 3)])"
    by (simp add: compute_hanoi_ground_truth_def)
next
  show "find_disk1_peg 0 state = None \<longleftrightarrow> (\<forall>peg \<in> set state. \<not> disk1_on_top peg)"
    by (rule find_disk1_peg_None)
next
  assume "\<exists>peg \<in> set state. disk1_on_top peg"
  then have "find_disk1_peg 0 state \<noteq> None" by (simp add: find_disk1_peg_None)
  then obtain r where r: "find_disk1_peg 0 state = Some r" by blast
  from find_disk1_peg_Some [OF r] obtain q where "q < length state" "r = q"
    "disk1_on_top (state ! q)" by auto
  with r show "\<exists>q<length state. disk1_on_top (state ! q) \<and>
         compute_hanoi_ground_truth state n = Inr (Some [1, int q, int ((q + 2) mod 3)])"
    by (auto simp: compute_hanoi_ground_truth_def)
qed

theorem ground_truth_moves_disk1_witness:
  "distinct (concat [[3, 2], [], [1::int]]) \<and> 2 < length [[3, 2], [], [1::int]] \<and>
   disk1_on_top ([[3, 2], [], [1]] ! 2) \<and>
   compute_hanoi_ground_truth [[3, 2], [], [1]] 3 = Inr (Some [1, 2, 1]) \<and>
   find_disk1_peg 0 [[3], [2], []] = None"
  using ground_truth_moves_disk1 [of "[[3, 2], [], [1]]" 2 3]
    ground_truth_moves_disk1 [of "[[3], [2], []]" 0 3]
  by (simp add: disk1_on_top_def)

text \<open>
  Claim C2. The claim says that \<^verbatim>\<open>hanoi_validator\<close> accepts exactly when all disks of the
  puzzle are on peg 2 and the number of actions is \<open>2 ^ d - 1\<close>. The validator takes for
  \<open>d\<close> the length of the longest peg: after the single legal move \<open>[1, 0, 2]\<close> of the
  2-disk puzzle, disk 2 is still on peg 0, and the validator accepts the state with that
  one action.
\<close>

theorem validator_accepts_unsolved:
  "apply_moves (HanoiState_init 2) [(1, 0, 2)] = Inr \<lparr>num_disks = 2, pegs = [[2], [], [1]]\<rparr> \<and>
   hanoi_validator [[2], [], [1]] [[1, 0, 2::int]] = Inr (True, NoReason)"
  by (simp add: HanoiState_init_def move_def py_index_def hanoi_validator_def validator_num_disks_def py_get_def Let_def upto.simps)

section \<open>Properties of the voting engine\<close>

lemma votes_for_add_vote:
  "votes_for (add_vote c tally) x = (if x = c then Suc (votes_for tally c) else votes_for tally x)"
  by (induction tally) auto

lemma keys_add_vote: "set (map fst (add_vote c tally)) = insert c (set (map fst tally))"
proof (induction tally)
  case Nil then show ?case by simp
next
  case (Cons e tally)
  obtain c' n where e: "e = (c', n)" by (cases e)
  show ?case
  proof (cases "c' = c")
    case True then show ?thesis by (simp add: e)
  next
    case False
    then show ?thesis using Cons by (simp add: e insert_commute)
  qed
qed

lemma distinct_add_vote: "distinct (map fst tally) \<Longrightarrow> distinct (map fst (add_vote c tally))"
proof (induction tally)
  case Nil then show ?case by simp
next
  case (Cons e tally)
  obtain c' n where e: "e = (c', n)" by (cases e)
  have "c' \<notin> fst ` set tally" using Cons.prems e by simp
  moreover have "fst ` set (add_vote c tally) = insert c (fst ` set tally)"
    using keys_add_vote [of c tally] by simp
  ultimately show ?case using Cons e by auto
qed

lemma leader_in_tally: "leader tally = Some (c, n) \<Longrightarrow> (c, n) \<in> set tally"
  by (induction tally arbitrary: c n) (auto split: option.splits if_splits)

lemma leader_is_max: "leader tally = Some (c, n) \<Longrightarrow> (c', n') \<in> set tally \<Longrightarrow> n' \<le> n"
proof (induction tally arbitrary: c n)
  case Nil then show ?case by simp
next
  case (Cons e tally)
  obtain c0 n0 where e: "e = (c0, n0)" by (cases e)
  show ?case
  proof (cases "leader tally")
    case None
    then have "tally = []" by (cases tally) (auto split: option.splits if_splits)
    with Cons.prems e show ?thesis by simp
  next
    case (Some l)
    obtain c1 n1 where l: "l = (c1, n1)" by (cases l)
    have ih: "(c', n') \<in> set tally \<Longrightarrow> n' \<le> n1"
      using Cons.IH [of c1 n1] Some l by simp
    from Cons.prems(1) Some l e have n: "n = (if n0 < n1 then n1 else n0)"
      by (auto split: if_splits)
    from Cons.prems(2) e have "(c', n') = (c0, n0) \<or> (c', n') \<in> set tally" by simp
    then show ?thesis using ih n by (auto split: if_splits)
  qed
qed

lemma votes_for_distinct:
  "distinct (map fst tally) \<Longrightarrow> (c, n) \<in> set tally \<Longrightarrow> votes_for tally c = n"
  by (induction tally) (auto simp: rev_image_eqI)

lemma votes_le_second_place: "x \<noteq> w \<Longrightarrow> votes_for tally x \<le> second_place w tally"
  by (induction tally) auto

lemma stopping_rule_met_margin:
  assumes "stopping_rule_met v tally = Some w" "distinct (map fst tally)"
  shows "(first_to_k v \<longrightarrow> voter_k v \<le> int (votes_for tally w)) \<and>
         (\<not> first_to_k v \<longrightarrow> int (second_place w tally) + voter_k v \<le> int (votes_for tally w))"
proof -
  from assms(1) obtain n where l: "leader tally = Some (w, n)"
    and r: "if first_to_k v then voter_k v \<le> int n
            else voter_k v \<le> int n - int (second_place w tally)"
    by (auto simp: stopping_rule_met_def split: option.splits if_splits)
  have "votes_for tally w = n"
    using votes_for_distinct [OF assms(2) leader_in_tally [OF l]] .
  with r show ?thesis by (auto split: if_splits)
qed

lemma voter_loop_unfold:
  assumes open_: "\<not> (max_votes v \<le> total_valid_samples cnt \<or> max_samples v \<le> total_samples cnt)"
   and d: "draw b = (s, b1)"
  shows "voter_loop v draw tally cnt b =
    (case s of
       Rejection r \<Rightarrow> voter_loop v draw tally (count_rejected cnt) b1
     | Candidate c \<Rightarrow>
         (case stopping_rule_met v (add_vote c tally) of
            Some w \<Rightarrow> (Winner w (add_vote c tally), count_accepted cnt, b1)
          | None \<Rightarrow> voter_loop v draw (add_vote c tally) (count_accepted cnt) b1))"
  apply (subst voter_loop.simps)
  apply (simp only: open_ d if_False split)
  done

lemma voter_loop_winner:
  "voter_loop v draw tally cnt b = (Winner w tally', cnt', b') \<Longrightarrow> distinct (map fst tally) \<Longrightarrow>
   stopping_rule_met v tally' = Some w \<and> distinct (map fst tally') \<and>
   total_samples cnt \<le> total_samples cnt' \<and>
   (\<forall>x. votes_for tally' x =
        votes_for tally x +
        count_list (accepted (drawn draw b (total_samples cnt' - total_samples cnt))) x)"
proof (induction v draw tally cnt b rule: voter_loop.induct)
  case (1 v draw tally cnt b)
  have open_: "\<not> (max_votes v \<le> total_valid_samples cnt \<or> max_samples v \<le> total_samples cnt)"
  proof
    assume "max_votes v \<le> total_valid_samples cnt \<or> max_samples v \<le> total_samples cnt"
    then have "voter_loop v draw tally cnt b = (StepFailure tally, cnt, b)"
      by (subst voter_loop.simps) simp
    with "1.prems"(1) show False by simp
  qed
  obtain s b1 where d: "draw b = (s, b1)" by (cases "draw b")
  have unf: "voter_loop v draw tally cnt b =
    (case s of
       Rejection r \<Rightarrow> voter_loop v draw tally (count_rejected cnt) b1
     | Candidate c \<Rightarrow>
         (case stopping_rule_met v (add_vote c tally) of
            Some w \<Rightarrow> (Winner w (add_vote c tally), count_accepted cnt, b1)
          | None \<Rightarrow> voter_loop v draw (add_vote c tally) (count_accepted cnt) b1))"
    using open_ d by (rule voter_loop_unfold)
  show ?case
  proof (cases s)
    case (Rejection r)
    with "1.prems"(1) unf have rec: "voter_loop v draw tally (count_rejected cnt) b1 = (Winner w tally', cnt', b')"
      by simp
    have ih: "stopping_rule_met v tally' = Some w \<and> distinct (map fst tally') \<and>
      total_samples (count_rejected cnt) \<le> total_samples cnt' \<and>
      (\<forall>x. votes_for tally' x = votes_for tally x +
        count_list (accepted (drawn draw b1 (total_samples cnt' - total_samples (count_rejected cnt)))) x)"
      using "1.IH"(2) [OF open_ d [symmetric] Rejection rec "1.prems"(2)] .
    then have le: "Suc (total_samples cnt) \<le> total_samples cnt'" by (simp add: count_rejected_def)
    then have "total_samples cnt' - total_samples cnt = Suc (total_samples cnt' - Suc (total_samples cnt))"
      by simp
    then have "accepted (drawn draw b (total_samples cnt' - total_samples cnt))
       = accepted (drawn draw b1 (total_samples cnt' - total_samples (count_rejected cnt)))"
      using d Rejection by (simp add: count_rejected_def)
    with ih le show ?thesis by simp
  next
    case (Candidate c)
    show ?thesis
    proof (cases "stopping_rule_met v (add_vote c tally)")
      case (Some w')
      with "1.prems"(1) unf Candidate have eq: "w' = w" "tally' = add_vote c tally"
        "cnt' = count_accepted cnt" "b' = b1"
        by simp_all
      have "total_samples cnt' - total_samples cnt = Suc 0" by (simp add: eq count_accepted_def)
      then have "accepted (drawn draw b (total_samples cnt' - total_samples cnt)) = [c]"
        using d Candidate by simp
      then show ?thesis
        using Some eq "1.prems"(2) by (auto simp: votes_for_add_vote distinct_add_vote count_accepted_def)
    next
      case None
      with "1.prems"(1) unf Candidate
      have rec: "voter_loop v draw (add_vote c tally) (count_accepted cnt) b1 = (Winner w tally', cnt', b')"
        by simp
      have ih: "stopping_rule_met v tally' = Some w \<and> distinct (map fst tally') \<and>
        total_samples (count_accepted cnt) \<le> total_samples cnt' \<and>
        (\<forall>x. votes_for tally' x = votes_for (add_vote c tally) x +
          count_list (accepted (drawn draw b1 (total_samples cnt' - total_samples (count_accepted cnt)))) x)"
        using "1.IH"(1) [OF open_ d [symmetric] Candidate None rec distinct_add_vote [OF "1.prems"(2)]] .
      then have le: "Suc (total_samples cnt) \<le> total_samples cnt'" by (simp add: count_accepted_def)
      then have "total_samples cnt' - total_samples cnt = Suc (total_samples cnt' - Suc (total_samples cnt))"
        by simp
      then have "accepted (drawn draw b (total_samples cnt' - total_samples cnt))
         = c # accepted (drawn draw b1 (total_samples cnt' - total_samples (count_accepted cnt)))"
        using d Candidate by (simp add: count_accepted_def)
      with ih le show ?thesis by (simp add: votes_for_add_vote)
    qed
  qed
qed

text \<open>
  Claim C6. Whenever the Voter returns a winner, the returned tally counts exactly the
  accepted samples drawn in this invocation, every other candidate has at most the
  second-place count, and the winner has met the stopping rule on that tally: in
  first-to-k mode it has at least \<open>k\<close> votes, in first-to-ahead-by-k mode its votes exceed
  the second-place count (0 when there is no other candidate) by at least \<open>k\<close>.
\<close>

theorem voter_winner_meets_stopping_rule:
  assumes "voter v runner inp b = (Winner w tally, cnt, b')"
  shows "(\<forall>x. votes_for tally x =
              count_list (accepted (drawn (runner inp) b (total_samples cnt))) x) \<and>
         (\<forall>x. x \<noteq> w \<longrightarrow> votes_for tally x \<le> second_place w tally) \<and>
         (first_to_k v \<longrightarrow> voter_k v \<le> int (votes_for tally w)) \<and>
         (\<not> first_to_k v \<longrightarrow> int (second_place w tally) + voter_k v \<le> int (votes_for tally w))"
proof -
  from assms have loop: "voter_loop v (runner inp) [] no_samples b = (Winner w tally, cnt, b')"
    by (auto simp: voter_def split: if_splits)
  have *: "stopping_rule_met v tally = Some w \<and> distinct (map fst tally) \<and>
   total_samples no_samples \<le> total_samples cnt \<and>
   (\<forall>x. votes_for tally x =
        votes_for [] x +
        count_list (accepted (drawn (runner inp) b (total_samples cnt - total_samples no_samples))) x)"
    by (rule voter_loop_winner [OF loop]) simp
  then have counts: "\<forall>x. votes_for tally x =
              count_list (accepted (drawn (runner inp) b (total_samples cnt))) x"
    by (simp add: no_samples_def)
  have others: "\<forall>x. x \<noteq> w \<longrightarrow> votes_for tally x \<le> second_place w tally"
    by (simp add: votes_le_second_place)
  from * have srm: "stopping_rule_met v tally = Some w" and dist: "distinct (map fst tally)"
    by simp_all
  have margin: "(first_to_k v \<longrightarrow> voter_k v \<le> int (votes_for tally w)) \<and>
         (\<not> first_to_k v \<longrightarrow> int (second_place w tally) + voter_k v \<le> int (votes_for tally w))"
    by (rule stopping_rule_met_margin [OF srm dist])
  show ?thesis
    by (rule conjI [OF counts conjI [OF others margin]])
qed

theorem voter_winner_meets_stopping_rule_witness:
  "voter default_voter
     (replay_runner [Candidate ''a'', Rejection Unparseable, Candidate ''b'',
                     Candidate ''a'', Candidate ''a'', Candidate ''a''])
     \<lparr>step_index = 0, total_steps = 1, step_state = (), metadata = ()\<rparr> 0 =
     (Winner ''a'' [(''a'', 4), (''b'', 1)],
      \<lparr>total_samples = 6, total_valid_samples = 5, total_red_flagged = 1\<rparr>, 6) \<and>
   votes_for [(''a'', 4), (''b'', 1)] ''a'' = 4 \<and>
   second_place ''a'' [(''a'', 4), (''b'', 1)] = 1 \<and>
   \<not> first_to_k default_voter \<and>
   int (second_place ''a'' [(''a'', 4), (''b'', 1)]) + voter_k default_voter
     \<le> int (votes_for [(''a'', 4), (''b'', 1)] ''a'')"
proof -
  have run: "voter default_voter
     (replay_runner [Candidate ''a'', Rejection Unparseable, Candidate ''b'',
                     Candidate ''a'', Candidate ''a'', Candidate ''a''])
     \<lparr>step_index = 0, total_steps = 1, step_state = (), metadata = ()\<rparr> 0 =
     (Winner ''a'' [(''a'', 4), (''b'', 1)],
      \<lparr>total_samples = 6, total_valid_samples = 5, total_red_flagged = 1\<rparr>, 6)"
    by (simp add: voter_def default_voter_def replay_runner_def voter_loop.simps no_samples_def
        count_accepted_def count_rejected_def stopping_rule_met_def)
  show ?thesis
    using voter_winner_meets_stopping_rule [OF run] run
    by (simp add: default_voter_def)
qed

lemma voter_loop_balanced:
  "balanced cnt \<Longrightarrow> balanced (fst (snd (voter_loop v draw tally cnt b)))"
proof (induction v draw tally cnt b rule: voter_loop.induct)
  case (1 v draw tally cnt b)
  show ?case
  proof (cases "max_votes v \<le> total_valid_samples cnt \<or> max_samples v \<le> total_samples cnt")
    case True
    then have "voter_loop v draw tally cnt b = (StepFailure tally, cnt, b)"
      by (subst voter_loop.simps) simp
    with "1.prems" show ?thesis by simp
  next
    case False
    obtain s b1 where d: "draw b = (s, b1)" by (cases "draw b")
    have unf: "voter_loop v draw tally cnt b =
      (case s of
         Rejection r \<Rightarrow> voter_loop v draw tally (count_rejected cnt) b1
       | Candidate c \<Rightarrow>
           (case stopping_rule_met v (add_vote c tally) of
              Some w \<Rightarrow> (Winner w (add_vote c tally), count_accepted cnt, b1)
            | None \<Rightarrow> voter_loop v draw (add_vote c tally) (count_accepted cnt) b1))"
      using False d by (rule voter_loop_unfold)
    show ?thesis
    proof (cases s)
      case (Candidate c)
      have bal: "balanced (count_accepted cnt)"
        using "1.prems" by (simp add: balanced_def count_accepted_def)
      show ?thesis
      proof (cases "stopping_rule_met v (add_vote c tally)")
        case None
        have "balanced (fst (snd (voter_loop v draw (add_vote c tally) (count_accepted cnt) b1)))"
          using "1.IH"(1) [OF False d [symmetric] Candidate None bal] .
        with unf Candidate None show ?thesis by simp
      next
        case (Some w)
        with unf Candidate bal show ?thesis by simp
      qed
    next
      case (Rejection r)
      have bal: "balanced (count_rejected cnt)"
        using "1.prems" by (simp add: balanced_def count_rejected_def)
      have "balanced (fst (snd (voter_loop v draw tally (count_rejected cnt) b1)))"
        using "1.IH"(2) [OF False d [symmetric] Rejection bal] .
      with unf Rejection show ?thesis by simp
    qed
  qed
qed

lemma voter_balanced: "balanced (fst (snd (voter v runner inp b)))"
proof -
  have none: "balanced no_samples" by (simp add: balanced_def no_samples_def)
  then have "balanced (fst (snd (voter_loop v (runner inp) [] no_samples b)))"
    by (rule voter_loop_balanced)
  with none show ?thesis by (simp add: voter_def)
qed

lemma add_counters_balanced: "balanced x \<Longrightarrow> balanced y \<Longrightarrow> balanced (add_counters x y)"
  by (simp add: balanced_def add_counters_def)

lemma exec_step_balanced:
  assumes "\<And>inp b. balanced (fst (snd (vote inp b)))" "balanced (counts es)"
  shows "balanced (counts (exec_step vote transition num_steps es))"
proof (cases "status es = Running \<and> next_step es < num_steps")
  case False
  have "exec_step vote transition num_steps es = es"
    unfolding exec_step_def by (rule if_not_P [OF False])
  then show ?thesis using assms(2) by simp
next
  case True
  let ?inp = "\<lparr>step_index = next_step es, total_steps = num_steps,
                    step_state = current_state es, metadata = prev_action es\<rparr>"
  obtain result cnt b' where v: "vote ?inp (backend es) = (result, cnt, b')"
    by (cases "vote ?inp (backend es)")
  have "balanced cnt" using assms(1) [of ?inp "backend es"] v by simp
  then have "balanced (add_counters (counts es) cnt)"
    using assms(2) by (simp add: add_counters_balanced)
  then show ?thesis
    using True v by (simp add: exec_step_def Let_def split: vote_result.splits sum.splits)
qed

lemma run_steps_balanced:
  assumes "\<And>inp b. balanced (fst (snd (vote inp b)))" "balanced (counts es)"
  shows "balanced (counts (run_steps vote transition num_steps n es))"
  using assms by (induction n) (simp_all add: exec_step_balanced)

lemma run_task_counts:
  "counts (run_task vote transition validator initial_state num_steps b) =
   counts (run_steps vote transition num_steps num_steps
            ((initial_executor_state initial_state b)\<lparr>status := Running\<rparr>))"
  by (simp add: run_task_def Let_def)

text \<open>
  Claim C7. The counters returned by every Voter invocation satisfy
  \<^verbatim>\<open>total_valid_samples + total_red_flagged == total_samples\<close>, and so do the Executor's
  running counters after any number \<open>n\<close> of steps of a run and the counters of the
  finished run, whatever the Step Runner, the transition function and the validator are.
\<close>

theorem counters_balanced_at_every_point:
  "balanced (fst (snd (voter v runner inp b))) \<and>
   balanced (counts (run_steps (voter v runner) transition num_steps n
                       ((initial_executor_state initial_state b0)\<lparr>status := Running\<rparr>))) \<and>
   balanced (counts (run_task (voter v runner) transition validator initial_state num_steps b0))"
proof -
  have start: "balanced (counts ((initial_executor_state initial_state b0)\<lparr>status := Running\<rparr>))"
    by (simp add: initial_executor_state_def balanced_def no_samples_def)
  have steps: "balanced (counts (run_steps (voter v runner) transition num_steps m
                       ((initial_executor_state initial_state b0)\<lparr>status := Running\<rparr>)))" for m
    by (rule run_steps_balanced [OF voter_balanced start])
  show ?thesis
    using voter_balanced [of v runner inp b] steps [of n] steps [of num_steps]
    by (simp add: run_task_counts)
qed


section \<open>The 3-disk run\<close>

lemma run_steps_follow:
  assumes H: "\<And>inp b a. policy (step_state inp) (metadata inp) = Inr (Some a) \<Longrightarrow>
                winning_action (vote inp b) = Some a"
  shows "follow policy transition n st0 = Some (st, prev, acts) \<Longrightarrow> n \<le> N \<Longrightarrow>
     status (run_steps vote transition N n ((initial_executor_state st0 b0)\<lparr>status := Running\<rparr>)) = Running \<and>
     current_state (run_steps vote transition N n ((initial_executor_state st0 b0)\<lparr>status := Running\<rparr>)) = st \<and>
     prev_action (run_steps vote transition N n ((initial_executor_state st0 b0)\<lparr>status := Running\<rparr>)) = prev \<and>
     actions (run_steps vote transition N n ((initial_executor_state st0 b0)\<lparr>status := Running\<rparr>)) = acts \<and>
     next_step (run_steps vote transition N n ((initial_executor_state st0 b0)\<lparr>status := Running\<rparr>)) = n"
proof (induction n arbitrary: st prev acts)
  case 0
  then show ?case by (simp add: initial_executor_state_def)
next
  case (Suc n)
  let ?es = "run_steps vote transition N n ((initial_executor_state st0 b0)\<lparr>status := Running\<rparr>)"
  from Suc.prems(1) obtain st1 prev1 acts1 a
    where f: "follow policy transition n st0 = Some (st1, prev1, acts1)"
      and p: "policy st1 prev1 = Inr (Some a)"
      and t: "transition st1 a = Inr st"
      and r: "prev = Some a" "acts = acts1 @ [a]"
    by (auto split: option.splits sum.splits)
  from Suc.prems(2) have n: "n < N" "n \<le> N" by simp_all
  have ih: "status ?es = Running" "current_state ?es = st1" "prev_action ?es = prev1"
    "actions ?es = acts1" "next_step ?es = n"
    using Suc.IH [OF f n(2)] by simp_all
  let ?inp = "\<lparr>step_index = next_step ?es, total_steps = N,
               step_state = current_state ?es, metadata = prev_action ?es\<rparr>"
  have "winning_action (vote ?inp (backend ?es)) = Some a"
    by (rule H) (simp add: ih p)
  then obtain cand tally cnt b' where v: "vote ?inp (backend ?es) = (Winner cand tally, cnt, b')"
    and c: "fst cand = a"
    by (cases "vote ?inp (backend ?es)" rule: winning_action.cases) auto
  have "exec_step vote transition N ?es =
     ?es\<lparr>counts := add_counters (counts ?es) cnt, backend := b',
          current_state := st, prev_action := Some a, actions := acts1 @ [a],
          next_step := Suc n\<rparr>"
    using ih n(1) v c t by (simp add: exec_step_def Let_def)
  then show ?case using ih r by simp
qed

lemma start_state: "to_list (HanoiState_init 3) = [[3, 2, 1], [], []]"
  by (simp add: to_list_def HanoiState_init_def upto.simps)

lemma follow_step:
  "follow policy transition n st0 = Some (st, prev, acts) \<Longrightarrow> policy st prev = Inr (Some a) \<Longrightarrow>
   transition st a = Inr st' \<Longrightarrow>
   follow policy transition (Suc n) st0 = Some (st', Some a, acts @ [a])"
  by simp

lemmas hanoi_transition_eval =
  hanoi_transition_def move_def from_list_def to_list_def HanoiState_init_def py_index_def Let_def

lemma seven: "(7::nat) = Suc (Suc (Suc (Suc (Suc (Suc (Suc 0))))))"
  by simp

lemma follow_strategy:
  "follow strategy_move hanoi_transition 7 [[3, 2, 1], [], []] =
     Some ([[], [], [3, 2, 1]], Some [1, 0, 2],
           [[1, 0, 2], [2, 0, 1], [1, 2, 1], [3, 0, 2], [1, 1, 0], [2, 1, 2], [1, 0, 2]])"
proof -
  have f0: "follow strategy_move hanoi_transition 0 [[3, 2, 1], [], []] =
    Some ([[3, 2, 1], [], []], None, [])" by simp
  have s1: "strategy_move [[3, 2, 1], [], []] None = Inr (Some [1, 0, 2])"
    by (simp add: strategy_move_def compute_hanoi_ground_truth_def)
  have t1: "hanoi_transition [[3, 2, 1], [], []] [1, 0, 2] = Inr [[3, 2], [], [1]]"
    by (simp add: hanoi_transition_eval)
  have s2: "strategy_move [[3, 2], [], [1]] (Some [1, 0, 2]) = Inr (Some [2, 0, 1])"
    by (simp add: strategy_move_def)
  have t2: "hanoi_transition [[3, 2], [], [1]] [2, 0, 1] = Inr [[3], [2], [1]]"
    by (simp add: hanoi_transition_eval)
  have s3: "strategy_move [[3], [2], [1]] (Some [2, 0, 1]) = Inr (Some [1, 2, 1])"
    by (simp add: strategy_move_def compute_hanoi_ground_truth_def)
  have t3: "hanoi_transition [[3], [2], [1]] [1, 2, 1] = Inr [[3], [2, 1], []]"
    by (simp add: hanoi_transition_eval)
  have s4: "strategy_move [[3], [2, 1], []] (Some [1, 2, 1]) = Inr (Some [3, 0, 2])"
    by (simp add: strategy_move_def)
  have t4: "hanoi_transition [[3], [2, 1], []] [3, 0, 2] = Inr [[], [2, 1], [3]]"
    by (simp add: hanoi_transition_eval)
  have s5: "strategy_move [[], [2, 1], [3]] (Some [3, 0, 2]) = Inr (Some [1, 1, 0])"
    by (simp add: strategy_move_def compute_hanoi_ground_truth_def)
  have t5: "hanoi_transition [[], [2, 1], [3]] [1, 1, 0] = Inr [[1], [2], [3]]"
    by (simp add: hanoi_transition_eval)
  have s6: "strategy_move [[1], [2], [3]] (Some [1, 1, 0]) = Inr (Some [2, 1, 2])"
    by (simp add: strategy_move_def)
  have t6: "hanoi_transition [[1], [2], [3]] [2, 1, 2] = Inr [[1], [], [3, 2]]"
    by (simp add: hanoi_transition_eval)
  have s7: "strategy_move [[1], [], [3, 2]] (Some [2, 1, 2]) = Inr (Some [1, 0, 2])"
    by (simp add: strategy_move_def compute_hanoi_ground_truth_def)
  have t7: "hanoi_transition [[1], [], [3, 2]] [1, 0, 2] = Inr [[], [], [3, 2, 1]]"
    by (simp add: hanoi_transition_eval)
  note f1 = follow_step [OF f0 s1 t1]
  note f2 = follow_step [OF f1 s2 t2]
  note f3 = follow_step [OF f2 s3 t3]
  note f4 = follow_step [OF f3 s4 t4]
  note f5 = follow_step [OF f4 s5 t5]
  note f6 = follow_step [OF f5 s6 t6]
  note f7 = follow_step [OF f6 s7 t7]
  show ?thesis unfolding seven using f7 by (simp only: append.simps)
qed

lemma follow_ground_truth:
  "follow ground_truth_move hanoi_transition 7 [[3, 2, 1], [], []] =
     Some ([[3, 2], [], [1]], Some [1, 0, 2],
           [[1, 0, 2], [1, 2, 1], [1, 1, 0], [1, 0, 2], [1, 2, 1], [1, 1, 0], [1, 0, 2]])"
proof -
  have f0: "follow ground_truth_move hanoi_transition 0 [[3, 2, 1], [], []] =
    Some ([[3, 2, 1], [], []], None, [])" by simp
  have s1: "ground_truth_move [[3, 2, 1], [], []] prev = Inr (Some [1, 0, 2])" for prev
    by (simp add: ground_truth_move_def compute_hanoi_ground_truth_def)
  have t1: "hanoi_transition [[3, 2, 1], [], []] [1, 0, 2] = Inr [[3, 2], [], [1]]"
    by (simp add: hanoi_transition_eval)
  have s2: "ground_truth_move [[3, 2], [], [1]] prev = Inr (Some [1, 2, 1])" for prev
    by (simp add: ground_truth_move_def compute_hanoi_ground_truth_def)
  have t2: "hanoi_transition [[3, 2], [], [1]] [1, 2, 1] = Inr [[3, 2], [1], []]"
    by (simp add: hanoi_transition_eval)
  have s3: "ground_truth_move [[3, 2], [1], []] prev = Inr (Some [1, 1, 0])" for prev
    by (simp add: ground_truth_move_def compute_hanoi_ground_truth_def)
  have t3: "hanoi_transition [[3, 2], [1], []] [1, 1, 0] = Inr [[3, 2, 1], [], []]"
    by (simp add: hanoi_transition_eval)
  note f1 = follow_step [OF f0 s1 t1]
  note f2 = follow_step [OF f1 s2 t2]
  note f3 = follow_step [OF f2 s3 t3]
  note f4 = follow_step [OF f3 s1 t1]
  note f5 = follow_step [OF f4 s2 t2]
  note f6 = follow_step [OF f5 s3 t3]
  note f7 = follow_step [OF f6 s1 t1]
  show ?thesis unfolding seven using f7 by (simp only: append.simps)
qed

lemma validator_solved: "hanoi_validator_ok [[], [], [3, 2, 1]] [a1, a2, a3, a4, a5, a6, a7]"
  by (simp add: hanoi_validator_ok_def hanoi_validator_def validator_num_disks_def
      py_get_def py_index_def Let_def numeral_3_eq_3)

lemma validator_unsolved: "\<not> hanoi_validator_ok [[3, 2], [], [1]] acts"
  by (simp add: hanoi_validator_ok_def hanoi_validator_def validator_num_disks_def
      py_get_def py_index_def Let_def numeral_3_eq_3)

lemma run_task_follow:
  assumes H: "\<And>inp b a. policy (step_state inp) (metadata inp) = Inr (Some a) \<Longrightarrow>
                winning_action (vote inp b) = Some a"
    and f: "follow policy transition N st0 = Some (st, prev, acts)"
  shows "current_state (run_task vote transition validator st0 N b0) = st \<and>
         actions (run_task vote transition validator st0 N b0) = acts \<and>
         success (run_task vote transition validator st0 N b0) = validator st acts"
proof -
  let ?es = "run_steps vote transition N N ((initial_executor_state st0 b0)\<lparr>status := Running\<rparr>)"
  have es: "status ?es = Running" "current_state ?es = st" "actions ?es = acts"
    using run_steps_follow [of policy vote transition N st0 st prev acts N b0, OF H f] by simp_all
  show ?thesis
    by (simp add: run_task_def Let_def es success_def)
qed

lemma one_vote_winner:
  "policy (step_state inp) (metadata inp) = Inr (Some a) \<Longrightarrow>
   winning_action (voter one_vote (policy_runner policy) inp b) = Some a"
  by (simp add: voter_def one_vote_def voter_loop.simps policy_runner_def no_samples_def
      stopping_rule_met_def count_accepted_def)

text \<open>
  Claim C1, as the code has it. A peg is listed from bottom to top, so the 3-disk run in
  which every step's winner is the strategy's move ends in \<open>[[], [], [3, 2, 1]]\<close>, which is
  not \<open>[[], [], [1, 2, 3]]\<close>. And the run in which every step's winner is the move of
  \<^verbatim>\<open>compute_hanoi_ground_truth\<close> moves disk 1 seven times: it ends in \<open>[[3, 2], [], [1]]\<close>
  and the validator rejects it.
\<close>

theorem three_disk_run_ends_bottom_to_top:
  "current_state (run_task (voter one_vote (policy_runner strategy_move)) hanoi_transition
      hanoi_validator_ok (to_list (HanoiState_init 3)) 7 0) = [[], [], [3, 2, 1]] \<and>
   current_state (run_task (voter one_vote (policy_runner strategy_move)) hanoi_transition
      hanoi_validator_ok (to_list (HanoiState_init 3)) 7 0) \<noteq> [[], [], [1, 2, 3]] \<and>
   current_state (run_task (voter one_vote (policy_runner ground_truth_move)) hanoi_transition
      hanoi_validator_ok (to_list (HanoiState_init 3)) 7 0) = [[3, 2], [], [1]] \<and>
   \<not> success (run_task (voter one_vote (policy_runner ground_truth_move)) hanoi_transition
      hanoi_validator_ok (to_list (HanoiState_init 3)) 7 0)"
proof -
  have s: "current_state (run_task (voter one_vote (policy_runner strategy_move)) hanoi_transition
      hanoi_validator_ok [[3, 2, 1], [], []] 7 0) = [[], [], [3, 2, 1]]"
    using run_task_follow [of strategy_move "voter one_vote (policy_runner strategy_move)",
        OF one_vote_winner follow_strategy] by simp
  have g: "current_state (run_task (voter one_vote (policy_runner ground_truth_move)) hanoi_transition
      hanoi_validator_ok [[3, 2, 1], [], []] 7 0) = [[3, 2], [], [1]] \<and>
     \<not> success (run_task (voter one_vote (policy_runner ground_truth_move)) hanoi_transition
      hanoi_validator_ok [[3, 2, 1], [], []] 7 0)"
    using run_task_follow [of ground_truth_move "voter one_vote (policy_runner ground_truth_move)",
        OF one_vote_winner follow_ground_truth, of hanoi_validator_ok 0]
    by (simp add: validator_unsolved)
  show ?thesis
    using s g by (simp add: start_state)
qed

text \<open>
  Claim C1, amended. In a 3-disk Hanoi task of 7 steps in which the winning candidate of
  every step is the move of the strategy (whatever Voter and Step Runner produce it), the
  run accepts exactly the 7 moves of the optimal solution, ends in the state
  \<open>[[], [], [3, 2, 1]]\<close>, all disks on peg 2 listed from bottom to top, and reports success.
\<close>

theorem strategy_run_solves_three_disks:
  assumes "\<And>inp b a. strategy_move (step_state inp) (metadata inp) = Inr (Some a) \<Longrightarrow>
             winning_action (vote inp b) = Some a"
  shows "actions (run_task vote hanoi_transition hanoi_validator_ok (to_list (HanoiState_init 3)) 7 b0) =
           [[1, 0, 2], [2, 0, 1], [1, 2, 1], [3, 0, 2], [1, 1, 0], [2, 1, 2], [1, 0, 2]] \<and>
         length (actions (run_task vote hanoi_transition hanoi_validator_ok
                            (to_list (HanoiState_init 3)) 7 b0)) = 7 \<and>
         current_state (run_task vote hanoi_transition hanoi_validator_ok
                          (to_list (HanoiState_init 3)) 7 b0) = [[], [], [3, 2, 1]] \<and>
         success (run_task vote hanoi_transition hanoi_validator_ok (to_list (HanoiState_init 3)) 7 b0)"
proof -
  have "current_state (run_task vote hanoi_transition hanoi_validator_ok [[3, 2, 1], [], []] 7 b0) =
          [[], [], [3, 2, 1]] \<and>
        actions (run_task vote hanoi_transition hanoi_validator_ok [[3, 2, 1], [], []] 7 b0) =
          [[1, 0, 2], [2, 0, 1], [1, 2, 1], [3, 0, 2], [1, 1, 0], [2, 1, 2], [1, 0, 2]] \<and>
        success (run_task vote hanoi_transition hanoi_validator_ok [[3, 2, 1], [], []] 7 b0) =
          hanoi_validator_ok [[], [], [3, 2, 1]]
            [[1, 0, 2], [2, 0, 1], [1, 2, 1], [3, 0, 2], [1, 1, 0], [2, 1, 2], [1, 0, 2]]"
    using assms follow_strategy by (rule run_task_follow)
  then show ?thesis
    by (simp add: start_state validator_solved)
qed

theorem strategy_run_solves_three_disks_witness:
  "strategy_move [[3, 2, 1], [], []] None = Inr (Some [1, 0, 2]) \<and>
   winning_action (voter one_vote (policy_runner strategy_move)
     \<lparr>step_index = 0, total_steps = 7, step_state = [[3, 2, 1], [], []], metadata = None\<rparr> 0) =
     Some [1, 0, 2] \<and>
   actions (run_task (voter one_vote (policy_runner strategy_move)) hanoi_transition
      hanoi_validator_ok (to_list (HanoiState_init 3)) 7 0) =
     [[1, 0, 2], [2, 0, 1], [1, 2, 1], [3, 0, 2], [1, 1, 0], [2, 1, 2], [1, 0, 2]] \<and>
   success (run_task (voter one_vote (policy_runner strategy_move)) hanoi_transition
      hanoi_validator_ok (to_list (HanoiState_init 3)) 7 0)"
proof -
  have s: "strategy_move [[3, 2, 1], [], []] None = Inr (Some [1, 0, 2])"
    by (simp add: strategy_move_def compute_hanoi_ground_truth_def)
  have w: "winning_action (voter one_vote (policy_runner strategy_move)
     \<lparr>step_index = 0, total_steps = 7, step_state = [[3, 2, 1], [], []], metadata = None\<rparr> 0) =
     Some [1, 0, 2]"
    by (rule one_vote_winner) (simp add: s)
  show ?thesis
    using strategy_run_solves_three_disks
      [where vote = "voter one_vote (policy_runner strategy_move)" and ?b0.0 = 0, OF one_vote_winner]
      s w by simp
qed

section \<open>Properties of \<^verbatim>\<open>parse_hanoi_response\<close>\<close>

lemma not_space [simp]: "\<not> is_space CHR ''=''" "\<not> is_space CHR ''[''"
  by (simp_all add: is_space_def)

lemma not_digit [simp]: "\<not> is_digit CHR '',''" "\<not> is_digit CHR '']''"
  by (simp_all add: is_digit_def)


lemma matches_ci_punct [simp]:
  "matches_ci CHR ''='' c \<longleftrightarrow> c = CHR ''=''"
  "matches_ci CHR ''['' c \<longleftrightarrow> c = CHR ''[''"
  "matches_ci CHR '','' c \<longleftrightarrow> c = CHR '',''"
  "matches_ci CHR '']'' c \<longleftrightarrow> c = CHR '']''"
  by (simp_all add: matches_ci_def)























end
